theory Spec2Isabelle
  imports Complex_Main
begin

section \<open>Library layer: Go durations as the detector stores them\<close>

text \<open>
  The hot-key detector keeps a key's access count in a string cache: it writes
  \<^verbatim>\<open>time.Duration(count).String()\<close> and reads it back with
  \<^verbatim>\<open>time.ParseDuration\<close>. Both are functions of Go's \<^verbatim>\<open>time\<close> package;
  they are transcribed here so that the strings in the model are the strings of the
  program (a count of 99 is stored as \<open>''99ns''\<close>, a count of 1500 as
  \<open>1.5\<close> microseconds).  A duration is an \<^verbatim>\<open>int64\<close> number of nanoseconds.
\<close>

definition int64 :: "int \<Rightarrow> int" where
  \<comment> \<open>conversion to \<^verbatim>\<open>int64\<close>: two's complement wrap-around\<close>
  "int64 x = (x + 2 ^ 63) mod 2 ^ 64 - 2 ^ 63"

definition uint64 :: "int \<Rightarrow> nat" where
  \<comment> \<open>conversion to \<^verbatim>\<open>uint64\<close>\<close>
  "uint64 x = nat (x mod 2 ^ 64)"

definition Nanosecond :: int where "Nanosecond = 1"
definition Microsecond :: int where "Microsecond = 1000 * Nanosecond"
definition Millisecond :: int where "Millisecond = 1000 * Microsecond"
definition Second :: int where "Second = 1000 * Millisecond"
definition Minute :: int where "Minute = 60 * Second"
definition Hour :: int where "Hour = 60 * Minute"

definition digitChar :: "nat \<Rightarrow> char" where
  \<comment> \<open>\<^verbatim>\<open>byte(digit) + '0'\<close>\<close>
  "digitChar d = char_of (d + 48)"

definition isDigit :: "char \<Rightarrow> bool" where
  \<comment> \<open>\<^verbatim>\<open>'0' <= c && c <= '9'\<close>\<close>
  "isDigit c = (48 \<le> (of_char c :: nat) \<and> (of_char c :: nat) \<le> 57)"

text \<open>
  The formatting functions of the library fill a buffer from its right end; the
  argument \<open>buf\<close> is the part of the buffer written so far.
\<close>

function fmtIntLoop :: "string \<Rightarrow> nat \<Rightarrow> string" where
  "fmtIntLoop buf v = (if v > 0 then fmtIntLoop (digitChar (v mod 10) # buf) (v div 10) else buf)"
  by pat_completeness auto
termination
  by (relation "measure (\<lambda>(buf, v). v)") auto

declare fmtIntLoop.simps [simp del]

definition fmtInt :: "string \<Rightarrow> nat \<Rightarrow> string" where
  "fmtInt buf v = (if v = 0 then CHR ''0'' # buf else fmtIntLoop buf v)"

fun fmtFracLoop :: "nat \<Rightarrow> string \<Rightarrow> nat \<Rightarrow> bool \<Rightarrow> string \<times> nat \<times> bool" where
  \<comment> \<open>the first argument counts the iterations that remain (\<open>prec - i\<close>)\<close>
  "fmtFracLoop 0 buf v pr = (buf, v, pr)"
| "fmtFracLoop (Suc n) buf v pr =
     (let digit = v mod 10;
          pr' = (pr \<or> digit \<noteq> 0);
          buf' = (if pr' then digitChar digit # buf else buf)
      in fmtFracLoop n buf' (v div 10) pr')"

definition fmtFrac :: "string \<Rightarrow> nat \<Rightarrow> nat \<Rightarrow> string \<times> nat" where
  \<comment> \<open>omits trailing zeros up to and including the decimal point\<close>
  "fmtFrac buf v prec =
     (case fmtFracLoop prec buf v False of
        (buf', v', pr) \<Rightarrow> (if pr then CHR ''.'' # buf' else buf', v'))"

definition microSign :: string where
  \<comment> \<open>U+00B5 in UTF-8\<close>
  "microSign = [CHR 0xC2, CHR 0xB5]"

definition format :: "nat \<Rightarrow> string" where
  \<comment> \<open>\<^verbatim>\<open>Duration.format\<close> without the sign, on \<open>u = |d|\<close>\<close>
  "format u =
     (if u < nat Second then
        (if u = 0 then ''0s''
         else if u < nat Microsecond then
           (case fmtFrac ''ns'' u 0 of (buf, u') \<Rightarrow> fmtInt buf u')
         else if u < nat Millisecond then
           (case fmtFrac (microSign @ ''s'') u 3 of (buf, u') \<Rightarrow> fmtInt buf u')
         else
           (case fmtFrac ''ms'' u 6 of (buf, u') \<Rightarrow> fmtInt buf u'))
      else
        (case fmtFrac ''s'' u 9 of (buf, u1) \<Rightarrow>
           let buf1 = fmtInt buf (u1 mod 60); u2 = u1 div 60 in
           if u2 > 0 then
             let buf2 = fmtInt (CHR ''m'' # buf1) (u2 mod 60); u3 = u2 div 60 in
             if u3 > 0 then fmtInt (CHR ''h'' # buf2) u3 else buf2
           else buf1))"

definition String :: "int \<Rightarrow> string" where
  \<comment> \<open>\<^verbatim>\<open>Duration.String\<close>: \<open>u := uint64(d); if d < 0 then u = -u\<close>\<close>
  "String d = (if d < 0 then CHR ''-'' # format (nat (- d)) else format (nat d))"

fun leadingInt :: "nat \<Rightarrow> string \<Rightarrow> (nat \<times> string) option" where
  \<comment> \<open>consumes the leading \<open>[0-9]*\<close>; \<open>None\<close> is \<^verbatim>\<open>errLeadingInt\<close> (overflow)\<close>
  "leadingInt x [] = Some (x, [])"
| "leadingInt x (c # s) =
     (if \<not> isDigit c then Some (x, c # s)
      else if x > 2 ^ 63 div 10 then None
      else let x' = x * 10 + of_char c - 48 in
           if x' > 2 ^ 63 then None else leadingInt x' s)"

fun leadingFraction :: "nat \<Rightarrow> nat \<Rightarrow> bool \<Rightarrow> string \<Rightarrow> nat \<times> nat \<times> string" where
  \<comment> \<open>consumes the leading \<open>[0-9]*\<close>; precision is dropped once the value would overflow\<close>
  "leadingFraction x scale overflow [] = (x, scale, [])"
| "leadingFraction x scale overflow (c # s) =
     (if \<not> isDigit c then (x, scale, c # s)
      else if overflow then leadingFraction x scale overflow s
      else if x > (2 ^ 63 - 1) div 10 then leadingFraction x scale True s
      else let y = x * 10 + of_char c - 48 in
           if y > 2 ^ 63 then leadingFraction x scale True s
           else leadingFraction y (scale * 10) overflow s)"

definition unitMap :: "string \<Rightarrow> nat option" where
  "unitMap u =
     (if u = ''ns'' then Some (nat Nanosecond)
      else if u = ''us'' then Some (nat Microsecond)
      else if u = microSign @ ''s'' then Some (nat Microsecond)
      else if u = [CHR 0xCE, CHR 0xBC, CHR ''s''] then Some (nat Microsecond)
      else if u = ''ms'' then Some (nat Millisecond)
      else if u = ''s'' then Some (nat Second)
      else if u = ''m'' then Some (nat Minute)
      else if u = ''h'' then Some (nat Hour)
      else None)"

definition isNumChar :: "char \<Rightarrow> bool" where
  \<comment> \<open>\<^verbatim>\<open>c == '.' || '0' <= c && c <= '9'\<close>\<close>
  "isNumChar c = (c = CHR ''.'' \<or> isDigit c)"

definition parseTerm :: "string \<Rightarrow> (nat \<times> string) option" where
  \<comment> \<open>one \<open>[0-9]*(\.[0-9]*)?[a-z]+\<close> group of \<^verbatim>\<open>ParseDuration\<close>: its value in
      nanoseconds and the rest of the input.  The library computes the fraction's
      contribution as \<^verbatim>\<open>uint64(float64(f) * (float64(unit) / scale))\<close>; the model
      computes the quotient exactly.  The two agree on the strings that
      \<^verbatim>\<open>Duration.String\<close> produces (fractions of at most nine digits), the only
      strings the detector stores; on longer fractions the floating-point result
      can differ.\<close>
  "parseTerm s =
     (case s of [] \<Rightarrow> None | c0 # _ \<Rightarrow>
      if \<not> isNumChar c0 then None
      else case leadingInt 0 s of None \<Rightarrow> None | Some (v, s1) \<Rightarrow>
        let pre = (length s \<noteq> length s1);
            (f, scale, s2, post) =
              (case s1 of
                 c # r \<Rightarrow> if c = CHR ''.''
                          then (case leadingFraction 0 1 False r of
                                  (f, scale, s2) \<Rightarrow> (f, scale, s2, length r \<noteq> length s2))
                          else (0, 1, s1, False)
               | [] \<Rightarrow> (0, 1, s1, False))
        in if \<not> pre \<and> \<not> post then None
           else let u = takeWhile (\<lambda>c. \<not> isNumChar c) s2;
                    s3 = dropWhile (\<lambda>c. \<not> isNumChar c) s2
                in if u = [] then None
                   else case unitMap u of None \<Rightarrow> None | Some unit \<Rightarrow>
                     if v > 2 ^ 63 div unit then None
                     else let v1 = v * unit;
                              v2 = (if f > 0 then v1 + (f * unit) div scale else v1)
                          in if f > 0 \<and> v2 > 2 ^ 63 then None else Some (v2, s3))"

function parseTerms :: "nat \<Rightarrow> string \<Rightarrow> nat option" where
  \<comment> \<open>the loop \<^verbatim>\<open>for s != ""\<close>, summing the groups in \<^verbatim>\<open>uint64\<close>\<close>
  "parseTerms d s =
     (if s = [] then Some d
      else case parseTerm s of None \<Rightarrow> None
           | Some (v, s') \<Rightarrow>
               if length s' < length s then
                 (let d' = (d + v) mod 2 ^ 64 in
                  if d' > 2 ^ 63 then None else parseTerms d' s')
               else None)"
  by pat_completeness auto
termination
  by (relation "measure (\<lambda>(d, s). length s)") auto

declare parseTerms.simps [simp del]

definition ParseDuration :: "string \<Rightarrow> int option" where
  \<comment> \<open>\<^verbatim>\<open>time.ParseDuration\<close>; \<open>None\<close> stands for its error results, with which the
      library returns the zero duration\<close>
  "ParseDuration orig =
     (let (neg, s) = (case orig of
                        c # r \<Rightarrow> if c = CHR ''-'' \<or> c = CHR ''+'' then (c = CHR ''-'', r)
                                 else (False, orig)
                      | [] \<Rightarrow> (False, orig))
      in if s = ''0'' then Some 0
         else if s = [] then None
         else case parseTerms 0 s of None \<Rightarrow> None
              | Some d \<Rightarrow>
                  if neg then Some (int64 (- int d))
                  else if d > 2 ^ 63 - 1 then None
                  else Some (int d))"


section \<open>Library layer: the expiring local cache\<close>

text \<open>
  \<^verbatim>\<open>pkg/cache/local_cache.go\<close> wraps the go-cache library.  An item carries the
  instant at which it expires, in nanoseconds (\<open>0\<close>: never); a lookup treats an
  item whose instant has passed as absent.  Every operation takes the current time
  \<open>now\<close> (\<^verbatim>\<open>time.Now().UnixNano()\<close>) as an argument.  The field \<open>accesses\<close>
  is not in the program: it records the calls a cache received, so that properties
  of the form ``this cache is not consulted'' can be stated.
\<close>

datatype access = Lookup string | Store string string | Remove string

record item =
  Object :: string
  Expiration :: int

record LocalCache =
  defaultExpiration :: int
  items :: "string \<rightharpoonup> item"
  accesses :: "access list"

definition NewLocalCache :: "int \<Rightarrow> int \<Rightarrow> LocalCache" where
  \<comment> \<open>\<^verbatim>\<open>cache.New\<close> replaces a zero default expiration by \<open>-1\<close> (no expiration)\<close>
  "NewLocalCache de cleanupInterval =
     \<lparr>defaultExpiration = (if de = 0 then - 1 else de), items = Map.empty, accesses = []\<rparr>"

definition cacheGet :: "LocalCache \<Rightarrow> string \<Rightarrow> int \<Rightarrow> (string \<times> bool) \<times> LocalCache" where
  \<comment> \<open>\<^verbatim>\<open>LocalCache.Get\<close>\<close>
  "cacheGet lc key now =
     (let lc' = lc\<lparr>accesses := accesses lc @ [Lookup key]\<rparr> in
      case items lc key of
        None \<Rightarrow> (([], False), lc')
      | Some it \<Rightarrow>
          if Expiration it > 0 \<and> now > Expiration it then (([], False), lc')
          else ((Object it, True), lc'))"

definition cacheSet :: "LocalCache \<Rightarrow> string \<Rightarrow> string \<Rightarrow> int \<Rightarrow> int \<Rightarrow> LocalCache" where
  \<comment> \<open>\<^verbatim>\<open>LocalCache.Set\<close>: a zero duration means the default, a duration that is not
      positive means no expiration\<close>
  "cacheSet lc key val duration now =
     (let d = (if duration = 0 then defaultExpiration lc else duration);
          e = (if d > 0 then now + d else 0)
      in lc\<lparr>items := (items lc)(key \<mapsto> \<lparr>Object = val, Expiration = e\<rparr>),
             accesses := accesses lc @ [Store key val]\<rparr>)"

definition cacheDelete :: "LocalCache \<Rightarrow> string \<Rightarrow> LocalCache" where
  \<comment> \<open>\<^verbatim>\<open>LocalCache.Delete\<close>\<close>
  "cacheDelete lc key =
     lc\<lparr>items := (items lc)(key := None), accesses := accesses lc @ [Remove key]\<rparr>"

section \<open>The hot-key detector\<close>

record HotKeyConfig =
  Threshold :: int
  Window :: int
  HotKeyExpiration :: int

definition DefaultHotKeyConfig :: HotKeyConfig where
  "DefaultHotKeyConfig =
     \<lparr>Threshold = 100, Window = Second * 10, HotKeyExpiration = Minute * 5\<rparr>"

record HotKeyDetector =
  config :: HotKeyConfig
  localCache :: LocalCache
  hotKeys :: LocalCache

definition NewHotKeyDetector :: "HotKeyConfig \<Rightarrow> HotKeyDetector" where
  "NewHotKeyDetector cfg =
     \<lparr>config = cfg,
      localCache = NewLocalCache (Window cfg) Minute,
      hotKeys = NewLocalCache (HotKeyExpiration cfg) Minute\<rparr>"

definition NewDefaultHotKeyDetector :: HotKeyDetector where
  "NewDefaultHotKeyDetector = NewHotKeyDetector DefaultHotKeyConfig"

definition parsedCount :: "string \<Rightarrow> int" where
  \<comment> \<open>\<^verbatim>\<open>currentCount, _ := time.ParseDuration(val)\<close>: the error is dropped and the
      zero duration is used\<close>
  "parsedCount val = (case ParseDuration val of None \<Rightarrow> 0 | Some d \<Rightarrow> d)"

definition RecordAccess :: "HotKeyDetector \<Rightarrow> string \<Rightarrow> int \<Rightarrow> bool \<times> HotKeyDetector" where
  "RecordAccess d key now =
     (case cacheGet (hotKeys d) key now of
        ((_, isHot), hk) \<Rightarrow>
          let d1 = d\<lparr>hotKeys := hk\<rparr> in
          if isHot then (True, d1)
          else
            (case cacheGet (localCache d1) key now of
               ((val, exists), lc) \<Rightarrow>
                 let count = (if exists then int64 (parsedCount val + 1) else 1);
                     d2 = d1\<lparr>localCache := cacheSet lc key (String count) (Window (config d1)) now\<rparr>
                 in if count \<ge> Threshold (config d2)
                    then (True, d2\<lparr>hotKeys := cacheSet (hotKeys d2) key ''true''
                                                  (HotKeyExpiration (config d2)) now\<rparr>)
                    else (False, d2)))"

definition IsHotKey :: "HotKeyDetector \<Rightarrow> string \<Rightarrow> int \<Rightarrow> bool \<times> HotKeyDetector" where
  "IsHotKey d key now =
     (case cacheGet (hotKeys d) key now of
        ((_, isHot), hk) \<Rightarrow> (isHot, d\<lparr>hotKeys := hk\<rparr>))"

definition GetAccessCount :: "HotKeyDetector \<Rightarrow> string \<Rightarrow> int \<Rightarrow> int \<times> HotKeyDetector" where
  "GetAccessCount d key now =
     (case cacheGet (localCache d) key now of
        ((val, exists), lc) \<Rightarrow>
          (if exists then parsedCount val else 0, d\<lparr>localCache := lc\<rparr>))"

definition GetHotKeys :: "HotKeyDetector \<Rightarrow> string list" where
  \<comment> \<open>the body is \<^verbatim>\<open>return []string{}\<close>\<close>
  "GetHotKeys d = []"

definition ClearHotKey :: "HotKeyDetector \<Rightarrow> string \<Rightarrow> HotKeyDetector" where
  "ClearHotKey d key = d\<lparr>hotKeys := cacheDelete (hotKeys d) key\<rparr>"


section \<open>The rate limiter\<close>

text \<open>
  \<^verbatim>\<open>pkg/limiter\<close> keeps one token bucket per key.  The bucket itself is the
  \<^verbatim>\<open>rate.Limiter\<close> of an external package whose code is not part of the repository.
\<close>

record RateLimiterConfig =
  RatePerSecond :: rat
  BurstSize :: int

definition DefaultRateLimiterConfig :: RateLimiterConfig where
  "DefaultRateLimiterConfig = \<lparr>RatePerSecond = 10, BurstSize = 20\<rparr>"

text \<open>
  Modelled from the spec: the token bucket (\<^verbatim>\<open>rate.Limiter\<close>, with
  \<^verbatim>\<open>rate.NewLimiter\<close> and \<^verbatim>\<open>Limiter.Allow\<close>) is missing from the sources.  The
  design's data model gives it a capacity, a refill rate, a token count and the
  time of the last refill; \<open>Allow\<close> ``computes elapsed time since lastRefill, adds
  elapsed * refillRate tokens capped at capacity, then: if tokens \<open>\<ge>\<close> 1, debit one
  token and return true; else return false''.  A new bucket is full.  Token counts
  are exact rationals here; time is in nanoseconds.
\<close>

record Limiter =
  refillRate :: rat
  capacity :: int
  tokens :: rat
  lastRefill :: int

definition NewLimiter :: "rat \<Rightarrow> int \<Rightarrow> int \<Rightarrow> Limiter" where
  "NewLimiter r b now = \<lparr>refillRate = r, capacity = b, tokens = of_int b, lastRefill = now\<rparr>"

definition limiterAllow :: "Limiter \<Rightarrow> int \<Rightarrow> bool \<times> Limiter" where
  "limiterAllow bk now =
     (let elapsed = max 0 (now - lastRefill bk);
          refilled = min (of_int (capacity bk))
                         (tokens bk + of_int elapsed * refillRate bk / of_int Second)
      in if refilled \<ge> 1 then (True, bk\<lparr>tokens := refilled - 1, lastRefill := now\<rparr>)
         else (False, bk))"

record RateLimiter =
  rlConfig :: RateLimiterConfig
  limiters :: "string \<rightharpoonup> Limiter"
  cleanupTime :: int
  allowCalls :: "string list"

definition NewRateLimiter :: "RateLimiterConfig \<Rightarrow> RateLimiter" where
  "NewRateLimiter cfg = \<lparr>rlConfig = cfg, limiters = Map.empty, cleanupTime = Hour, allowCalls = []\<rparr>"

definition NewDefaultRateLimiter :: RateLimiter where
  "NewDefaultRateLimiter = NewRateLimiter DefaultRateLimiterConfig"

definition getLimiter :: "RateLimiter \<Rightarrow> string \<Rightarrow> int \<Rightarrow> Limiter \<times> RateLimiter" where
  "getLimiter rl key now =
     (case limiters rl key of
        Some limiter \<Rightarrow> (limiter, rl)
      | None \<Rightarrow>
          let limiter = NewLimiter (RatePerSecond (rlConfig rl)) (BurstSize (rlConfig rl)) now
          in (limiter, rl\<lparr>limiters := (limiters rl)(key \<mapsto> limiter)\<rparr>))"

definition Allow :: "RateLimiter \<Rightarrow> string \<Rightarrow> int \<Rightarrow> bool \<times> RateLimiter" where
  \<comment> \<open>the limiter is a pointer held by the map: \<open>Allow\<close> on it updates the map's bucket\<close>
  "Allow rl key now =
     (case getLimiter rl key now of
        (limiter, rl1) \<Rightarrow>
          (case limiterAllow limiter now of
             (allowed, limiter') \<Rightarrow>
               (allowed, rl1\<lparr>limiters := (limiters rl1)(key \<mapsto> limiter'),
                              allowCalls := allowCalls rl1 @ [key]\<rparr>)))"

definition cleanup :: "RateLimiter \<Rightarrow> RateLimiter" where
  \<comment> \<open>one tick of the cleanup loop: every bucket is dropped\<close>
  "cleanup rl = rl\<lparr>limiters := Map.empty\<rparr>"

definition SetRateForKey :: "RateLimiter \<Rightarrow> string \<Rightarrow> rat \<Rightarrow> int \<Rightarrow> int \<Rightarrow> RateLimiter" where
  "SetRateForKey rl key ratePerSecond burstSize now =
     rl\<lparr>limiters := (limiters rl)(key \<mapsto> NewLimiter ratePerSecond burstSize now)\<rparr>"

section \<open>The backing store client\<close>

text \<open>
  The Redis server is outside the program.  Its state is a map from keys to values
  and whether it can be reached; \<open>reply\<close> is what \<^verbatim>\<open>client.Get(...).Result()\<close>
  yields: the value, the \<^verbatim>\<open>redis.Nil\<close> error for an absent key, or another error.
  The field \<open>commands\<close> records the commands sent (not in the program).
\<close>

datatype reply = Value string | RedisNil | Failure

record RedisClient =
  kv :: "string \<rightharpoonup> string"
  reachable :: bool
  commands :: "access list"

definition clientGet :: "RedisClient \<Rightarrow> string \<Rightarrow> reply" where
  "clientGet r key =
     (if \<not> reachable r then Failure
      else case kv r key of None \<Rightarrow> RedisNil | Some v \<Rightarrow> Value v)"

definition redisGet :: "RedisClient \<Rightarrow> string \<Rightarrow> (string \<times> bool) \<times> RedisClient" where
  \<comment> \<open>\<^verbatim>\<open>RedisClient.Get\<close>; the second component is \<open>err != nil\<close>.  An absent key
      gives the empty string and no error.\<close>
  "redisGet r key =
     (let r' = r\<lparr>commands := commands r @ [Lookup key]\<rparr> in
      case clientGet r key of
        Failure \<Rightarrow> (([], True), r')
      | RedisNil \<Rightarrow> (([], False), r')
      | Value val \<Rightarrow> ((val, False), r'))"

definition redisSet :: "RedisClient \<Rightarrow> string \<Rightarrow> string \<Rightarrow> int \<Rightarrow> bool \<times> RedisClient" where
  \<comment> \<open>\<^verbatim>\<open>RedisClient.Set\<close>; the result is \<open>err != nil\<close>.  The expiration is handed to
      the server, whose expiry is not modelled.\<close>
  "redisSet r key val expiration =
     (let r' = r\<lparr>commands := commands r @ [Store key val]\<rparr> in
      if \<not> reachable r then (True, r')
      else (False, r'\<lparr>kv := (kv r)(key \<mapsto> val)\<rparr>))"

section \<open>The API server\<close>

datatype jvalue = JString string | JInt int | JBool bool | JStrings "string list"

type_synonym response = "nat \<times> (string \<times> jvalue) list"

definition StatusOK :: nat where "StatusOK = 200"
definition StatusBadRequest :: nat where "StatusBadRequest = 400"
definition StatusNotFound :: nat where "StatusNotFound = 404"
definition StatusTooManyRequests :: nat where "StatusTooManyRequests = 429"
definition StatusInternalServerError :: nat where "StatusInternalServerError = 500"

record Server =
  redisClient :: RedisClient
  svLocalCache :: LocalCache
  hotKeyDet :: HotKeyDetector
  rateLimiter :: RateLimiter

definition NewServer :: "RedisClient \<Rightarrow> Server" where
  \<comment> \<open>the argument is the state of the Redis server the client connects to\<close>
  "NewServer r =
     \<lparr>redisClient = r,
      svLocalCache = NewLocalCache (5 * Minute) Minute,
      hotKeyDet = NewDefaultHotKeyDetector,
      rateLimiter = NewDefaultRateLimiter\<rparr>"

text \<open>
  A handler takes the key of the route (\<^verbatim>\<open>c.Param("key")\<close>), for a write the form
  value (\<^verbatim>\<open>c.PostForm("value")\<close>), and the time of the request; it returns the
  JSON response with its status, and the server's new state.
\<close>

definition handleGetKey :: "Server \<Rightarrow> string \<Rightarrow> int \<Rightarrow> response \<times> Server" where
  "handleGetKey s key now =
     (case RecordAccess (hotKeyDet s) key now of
        (isHotKey, det) \<Rightarrow>
          let s1 = s\<lparr>hotKeyDet := det\<rparr>;
              fetch = (\<lambda>s2.
                case redisGet (redisClient s2) key of
                  ((val, err), rc) \<Rightarrow>
                    let s3 = s2\<lparr>redisClient := rc\<rparr> in
                    if err then
                      ((StatusInternalServerError,
                        [(''error'', JString ''Failed to get value from Redis'')]), s3)
                    else if val = [] then
                      ((StatusNotFound, [(''error'', JString ''Key not found'')]), s3)
                    else
                      let s4 = (if isHotKey
                                then s3\<lparr>svLocalCache :=
                                          cacheSet (svLocalCache s3) key val (5 * Minute) now\<rparr>
                                else s3)
                      in ((StatusOK, [(''value'', JString val), (''source'', JString ''redis'')]), s4))
          in if isHotKey then
               (case cacheGet (svLocalCache s1) key now of
                  ((val, found), lc) \<Rightarrow>
                    let s2 = s1\<lparr>svLocalCache := lc\<rparr> in
                    if found then
                      ((StatusOK, [(''value'', JString val), (''source'', JString ''local_cache'')]), s2)
                    else
                      (case Allow (rateLimiter s2) key now of
                         (allowed, rl) \<Rightarrow>
                           let s2' = s2\<lparr>rateLimiter := rl\<rparr> in
                           if \<not> allowed then
                             ((StatusTooManyRequests,
                               [(''error'', JString ''Too many requests for this hot key'')]), s2')
                           else fetch s2'))
             else fetch s1)"

definition handleKeyStats :: "Server \<Rightarrow> string \<Rightarrow> int \<Rightarrow> response \<times> Server" where
  "handleKeyStats s key now =
     (case GetAccessCount (hotKeyDet s) key now of
        (accessCount, det1) \<Rightarrow>
          (case IsHotKey det1 key now of
             (isHotKey, det2) \<Rightarrow>
               (case cacheGet (svLocalCache s) key now of
                  ((inCache, _), lc) \<Rightarrow>
                    ((StatusOK,
                      [(''key'', JString key),
                       (''access_count'', JInt accessCount),
                       (''is_hot_key'', JBool isHotKey),
                       (''in_cache'', JBool (inCache \<noteq> []))]),
                     s\<lparr>hotKeyDet := det2, svLocalCache := lc\<rparr>))))"

definition handleHotKeys :: "Server \<Rightarrow> response \<times> Server" where
  "handleHotKeys s =
     ((StatusOK, [(''hot_keys'', JStrings (GetHotKeys (hotKeyDet s)))]), s)"

definition handleSetKey :: "Server \<Rightarrow> string \<Rightarrow> string \<Rightarrow> int \<Rightarrow> response \<times> Server" where
  "handleSetKey s key val now =
     (if val = [] then
        ((StatusBadRequest, [(''error'', JString ''Value cannot be empty'')]), s)
      else
        (case redisSet (redisClient s) key val (1 * Hour) of
           (err, rc) \<Rightarrow>
             let s1 = s\<lparr>redisClient := rc\<rparr> in
             if err then
               ((StatusInternalServerError,
                 [(''error'', JString ''Failed to set value in Redis'')]), s1)
             else
               (case IsHotKey (hotKeyDet s1) key now of
                  (isHot, det) \<Rightarrow>
                    let s2 = s1\<lparr>hotKeyDet := det\<rparr>;
                        s3 = (if isHot
                              then s2\<lparr>svLocalCache :=
                                        cacheSet (svLocalCache s2) key val (5 * Minute) now\<rparr>
                              else s2)
                    in ((StatusOK, [(''status'', JString ''success'')]), s3))))"


section \<open>Concrete inputs\<close>

definition emptyRedis :: RedisClient where
  \<comment> \<open>a reachable Redis server that holds no key\<close>
  "emptyRedis = \<lparr>kv = Map.empty, reachable = True, commands = []\<rparr>"

definition thresholdOneConfig :: HotKeyConfig where
  \<comment> \<open>the default window and expiration, with a threshold of one access\<close>
  "thresholdOneConfig = \<lparr>Threshold = 1, Window = Second * 10, HotKeyExpiration = Minute * 5\<rparr>"

fun allowTimes :: "nat \<Rightarrow> RateLimiter \<Rightarrow> string \<Rightarrow> int \<Rightarrow> bool list \<times> RateLimiter" where
  \<comment> \<open>\<open>n\<close> calls of \<open>Allow\<close> for a key at one instant, with their results in order\<close>
  "allowTimes 0 rl key now = ([], rl)"
| "allowTimes (Suc n) rl key now =
     (case Allow rl key now of
        (allowed, rl1) \<Rightarrow>
          (case allowTimes n rl1 key now of (rest, rl2) \<Rightarrow> (allowed # rest, rl2)))"

section \<open>Runs of requests\<close>

datatype request = Read string int | Write string string int | Stats string int

fun serve :: "Server \<Rightarrow> request \<Rightarrow> Server" where
  \<comment> \<open>the state after a request: requests are served one after the other\<close>
  "serve s (Read key now) = snd (handleGetKey s key now)"
| "serve s (Write key val now) = snd (handleSetKey s key val now)"
| "serve s (Stats key now) = snd (handleKeyStats s key now)"

definition flagged :: "Server \<Rightarrow> string \<Rightarrow> bool" where
  \<comment> \<open>the key was marked hot at some time: the registry received the flag\<close>
  "flagged s key = (Store key ''true'' \<in> set (accesses (hotKeys (hotKeyDet s))))"

definition cacheLookedUp :: "Server \<Rightarrow> string \<Rightarrow> bool" where
  "cacheLookedUp s key = (Lookup key \<in> set (accesses (svLocalCache s)))"

fun storedKeys :: "access list \<Rightarrow> string list" where
  "storedKeys [] = []"
| "storedKeys (Store key val # as) = key # storedKeys as"
| "storedKeys (a # as) = storedKeys as"

definition cacheWritten :: "Server \<Rightarrow> string \<Rightarrow> bool" where
  "cacheWritten s key = (key \<in> set (storedKeys (accesses (svLocalCache s))))"

fun statsKeys :: "request list \<Rightarrow> string list" where
  "statsKeys [] = []"
| "statsKeys (Stats key now # rs) = key # statsKeys rs"
| "statsKeys (r # rs) = statsKeys rs"

text \<open>
  The invariant behind the cold-key property: a key that has an entry in the
  registry, or that the fallback cache saw written or looked up, has been flagged
  (or, for a lookup, was the subject of a stats request).
\<close>

definition coldInv :: "Server \<Rightarrow> request list \<Rightarrow> bool" where
  "coldInv s reqs =
     ((\<forall>k. items (hotKeys (hotKeyDet s)) k \<noteq> None \<longrightarrow> flagged s k)
      \<and> (\<forall>k. cacheWritten s k \<longrightarrow> flagged s k)
      \<and> (\<forall>k. cacheLookedUp s k \<longrightarrow> flagged s k \<or> k \<in> set (statsKeys reqs)))"

section \<open>The branches of the read path\<close>

definition detectedHot :: "Server \<Rightarrow> string \<Rightarrow> int \<Rightarrow> bool" where
  \<comment> \<open>the result of the detection step of a read\<close>
  "detectedHot s key now = fst (RecordAccess (hotKeyDet s) key now)"

definition servedFromCache :: "Server \<Rightarrow> string \<Rightarrow> int \<Rightarrow> bool" where
  \<comment> \<open>the read finds the key hot and in the fallback cache\<close>
  "servedFromCache s key now =
     (detectedHot s key now \<and> snd (fst (cacheGet (svLocalCache s) key now)))"

definition throttled :: "Server \<Rightarrow> string \<Rightarrow> int \<Rightarrow> bool" where
  \<comment> \<open>the read finds the key hot, misses the fallback cache and is denied by the limiter\<close>
  "throttled s key now =
     (detectedHot s key now \<and> (if snd (fst (cacheGet (svLocalCache s) key now)) then False
                               else if fst (Allow (rateLimiter s) key now) then False else True))"

definition emptyValueRedis :: RedisClient where
  \<comment> \<open>a reachable Redis server on which the key \<open>k\<close> holds the empty string\<close>
  "emptyValueRedis = \<lparr>kv = [''k'' \<mapsto> []], reachable = True, commands = []\<rparr>"

section \<open>Runs of accesses\<close>

fun recordAll :: "HotKeyDetector \<Rightarrow> (string \<times> int) list \<Rightarrow> HotKeyDetector" where
  \<comment> \<open>the detector after a list of accesses, each with its key and its time\<close>
  "recordAll d [] = d"
| "recordAll d ((key, now) # as) = recordAll (snd (RecordAccess d key now)) as"

section \<open>Auxiliary notions for the proofs\<close>

definition decVal :: "nat \<Rightarrow> string \<Rightarrow> nat" where
  \<comment> \<open>the number read from a digit string, continuing from \<open>x\<close>\<close>
  "decVal x ds = foldl (\<lambda>a c. a * 10 + (of_char c - 48)) x ds"

definition expired :: "item \<Rightarrow> int \<Rightarrow> bool" where
  \<comment> \<open>the test of a lookup: the item has an expiry instant and it has passed\<close>
  "expired it now = (Expiration it > 0 \<and> now > Expiration it)"

definition expiresAt :: "LocalCache \<Rightarrow> int \<Rightarrow> int \<Rightarrow> int" where
  \<comment> \<open>the expiry instant that \<open>cacheSet\<close> gives an item stored at \<open>now\<close> for \<open>duration\<close>\<close>
  "expiresAt lc duration now =
     (let d = (if duration = 0 then defaultExpiration lc else duration)
      in if d > 0 then now + d else 0)"

fun recordEach :: "HotKeyDetector \<Rightarrow> (string \<times> int) list \<Rightarrow> bool list" where
  \<comment> \<open>the results of a list of accesses, in order\<close>
  "recordEach d [] = []"
| "recordEach d ((key, now) # as) =
     fst (RecordAccess d key now) # recordEach (snd (RecordAccess d key now)) as"

fun accessKey :: "access \<Rightarrow> string" where
  "accessKey (Lookup key) = key"
| "accessKey (Store key val) = key"
| "accessKey (Remove key) = key"

definition callsFor :: "string \<Rightarrow> LocalCache \<Rightarrow> access list" where
  \<comment> \<open>the calls a cache received for a key\<close>
  "callsFor key lc = filter (\<lambda>a. accessKey a = key) (accesses lc)"

definition statsField :: "response \<Rightarrow> string \<Rightarrow> jvalue option" where
  \<comment> \<open>a field of a JSON response\<close>
  "statsField resp name = map_of (snd resp) name"

fun spaced :: "int \<Rightarrow> int list \<Rightarrow> bool" where
  \<comment> \<open>times since the epoch, in order, each at most a window after the one before\<close>
  "spaced w [] = True"
| "spaced w [a] = (0 \<le> a)"
| "spaced w (a # b # ts) = (0 \<le> a \<and> a \<le> b \<and> b \<le> a + w \<and> spaced w (b # ts))"

definition readsOf :: "string \<Rightarrow> int list \<Rightarrow> request list" where
  \<comment> \<open>read requests for one key at the given times\<close>
  "readsOf key ts = map (Read key) ts"

section \<open>Repeated reads\<close>




section \<open>Evaluation and projection lemmas\<close>

lemmas time_units = Nanosecond_def Microsecond_def Millisecond_def Second_def Minute_def Hour_def

lemma digitChar_simps:
  "digitChar 0 = CHR ''0''" "digitChar 1 = CHR ''1''" "digitChar 2 = CHR ''2''"
  "digitChar 3 = CHR ''3''" "digitChar 4 = CHR ''4''" "digitChar 5 = CHR ''5''"
  "digitChar 6 = CHR ''6''" "digitChar 7 = CHR ''7''" "digitChar 8 = CHR ''8''"
  "digitChar 9 = CHR ''9''" "digitChar (Suc 0) = CHR ''1''"
  by (simp_all add: digitChar_def char_of_def bit_Suc_0_iff bit_numeral_simps)

lemmas String_eval = String_def format_def fmtFrac_def fmtInt_def fmtIntLoop.simps
  digitChar_simps time_units microSign_def

lemmas ParseDuration_eval = parsedCount_def ParseDuration_def parseTerms.simps parseTerm_def
  isNumChar_def isDigit_def unitMap_def time_units microSign_def

lemma cacheGet_snd [simp]:
  "snd (cacheGet lc key now) = lc\<lparr>accesses := accesses lc @ [Lookup key]\<rparr>"
  by (simp add: cacheGet_def Let_def split: option.splits)

lemma cacheSet_sel [simp]:
  "accesses (cacheSet lc key val dur now) = accesses lc @ [Store key val]"
  "defaultExpiration (cacheSet lc key val dur now) = defaultExpiration lc"
  by (simp_all add: cacheSet_def Let_def)

lemma RecordAccess_config [simp]: "config (snd (RecordAccess d key now)) = config d"
  by (simp add: RecordAccess_def Let_def split: prod.splits)

lemma RecordAccess_hotKeys_accesses:
  "accesses (hotKeys (snd (RecordAccess d key now))) =
     accesses (hotKeys d) @ Lookup key #
       (if \<not> snd (fst (cacheGet (hotKeys d) key now)) \<and> fst (RecordAccess d key now)
        then [Store key ''true''] else [])"
  by (simp add: RecordAccess_def Let_def split_beta)


lemma String_1: "String 1 = ''1ns''"
  by (simp add: String_eval)

section \<open>Listing the hot keys\<close>

text \<open>
  C7.  The claim: \<open>GetHotKeys\<close> returns the keys with a live hot flag, that is, a key
  is in the list exactly when \<open>IsHotKey\<close> holds for it.  The function returns the
  empty list whatever the detector holds.  Here one access with a threshold of one
  marks the key \<open>k\<close> hot: \<open>IsHotKey\<close> answers true at that instant and
  \<open>GetHotKeys\<close> does not list the key.
\<close>

theorem GetHotKeys_omits_hot_key:
  "fst (RecordAccess (NewHotKeyDetector thresholdOneConfig) ''k'' 0)
   \<and> fst (IsHotKey (snd (RecordAccess (NewHotKeyDetector thresholdOneConfig) ''k'' 0)) ''k'' 0)
   \<and> ''k'' \<notin> set (GetHotKeys (snd (RecordAccess (NewHotKeyDetector thresholdOneConfig) ''k'' 0)))"
  by (simp add: IsHotKey_def RecordAccess_def NewHotKeyDetector_def thresholdOneConfig_def
      NewLocalCache_def cacheGet_def cacheSet_def GetHotKeys_def time_units String_1)

section \<open>The burst of a fresh key\<close>

lemma limiterAllow_same_instant:
  assumes "lastRefill bk = now" "tokens bk = of_nat m" "int m \<le> capacity bk"
  shows "limiterAllow bk now =
           (0 < m, if 0 < m then bk\<lparr>tokens := of_nat (m - 1), lastRefill := now\<rparr> else bk)"
proof -
  have le: "(of_nat m :: rat) \<le> of_int (capacity bk)"
    using assms(3) by (metis of_int_le_iff of_int_of_nat_eq)
  have r: "min (of_int (capacity bk)) (tokens bk + of_int (max 0 (now - lastRefill bk)) * refillRate bk / of_int Second) = (of_nat m :: rat)"
    using le assms(1,2) by simp
  show ?thesis
    unfolding limiterAllow_def Let_def r by (cases m) simp_all
qed

lemma Allow_existing:
  assumes "limiters rl key = Some bk" "lastRefill bk = now" "tokens bk = of_nat m" "int m \<le> capacity bk"
  shows "fst (Allow rl key now) = (0 < m)"
    and "limiters (snd (Allow rl key now)) key =
           Some (if 0 < m then bk\<lparr>tokens := of_nat (m - 1), lastRefill := now\<rparr> else bk)"
  using assms(1) limiterAllow_same_instant[OF assms(2,3,4)]
  by (simp_all add: Allow_def getLimiter_def)

lemma allowTimes_existing:
  "limiters rl key = Some bk \<Longrightarrow> lastRefill bk = now \<Longrightarrow> tokens bk = of_nat m \<Longrightarrow>
   int m \<le> capacity bk \<Longrightarrow>
   fst (allowTimes (Suc m) rl key now) = replicate m True @ [False]"
proof (induction m arbitrary: rl bk)
  case 0
  then show ?case using Allow_existing(1)[of rl key bk now 0]
    by (simp add: split_beta)
next
  case (Suc m)
  have a: "fst (Allow rl key now)"
    using Allow_existing(1)[OF Suc.prems] by simp
  have b: "limiters (snd (Allow rl key now)) key = Some (bk\<lparr>tokens := of_nat m, lastRefill := now\<rparr>)"
    using Allow_existing(2)[OF Suc.prems] by simp
  have "fst (allowTimes (Suc m) (snd (Allow rl key now)) key now) = replicate m True @ [False]"
    by (rule Suc.IH[OF b]) (use Suc.prems in simp_all)
  then show ?case using a
    by (simp add: split_beta)
qed

text \<open>
  C3.  For a key without a bucket and a burst size \<open>burst\<close> that is not negative,
  \<open>burst + 1\<close> calls of \<open>Allow\<close> at one instant return true on the first
  \<open>burst\<close> calls and false on the last one.
\<close>

theorem Allow_burst_then_deny:
  assumes "limiters rl key = None" and "0 \<le> BurstSize (rlConfig rl)"
  shows "fst (allowTimes (nat (BurstSize (rlConfig rl)) + 1) rl key now) =
           replicate (nat (BurstSize (rlConfig rl))) True @ [False]"
proof -
  let ?b = "nat (BurstSize (rlConfig rl))"
  let ?bk = "NewLimiter (RatePerSecond (rlConfig rl)) (BurstSize (rlConfig rl)) now"
  let ?rl = "rl\<lparr>limiters := (limiters rl)(key \<mapsto> ?bk)\<rparr>"
  have same: "Allow rl key now = Allow ?rl key now"
    using assms(1) by (simp add: Allow_def getLimiter_def Let_def)
  have "allowTimes (Suc ?b) rl key now = allowTimes (Suc ?b) ?rl key now"
    using same by simp
  moreover have "fst (allowTimes (Suc ?b) ?rl key now) = replicate ?b True @ [False]"
    by (rule allowTimes_existing[where bk = ?bk]) (use assms(2) in \<open>simp_all add: NewLimiter_def\<close>)
  ultimately show ?thesis by simp
qed

theorem Allow_burst_then_deny_witness:
  "limiters NewDefaultRateLimiter ''k'' = None
   \<and> 0 \<le> BurstSize (rlConfig NewDefaultRateLimiter)
   \<and> fst (allowTimes 21 NewDefaultRateLimiter ''k'' 0) = replicate 20 True @ [False]"
  using Allow_burst_then_deny [of NewDefaultRateLimiter "''k''" 0]
  by (simp add: NewDefaultRateLimiter_def NewRateLimiter_def DefaultRateLimiterConfig_def)


section \<open>Cold keys and the fallback cache\<close>

lemma handleGetKey_hotKeyDet [simp]:
  "hotKeyDet (snd (handleGetKey s key now)) = snd (RecordAccess (hotKeyDet s) key now)"
  by (simp add: handleGetKey_def Let_def split_beta)

lemma handleGetKey_cache_accesses:
  "a \<in> set (accesses (svLocalCache (snd (handleGetKey s key now)))) \<Longrightarrow>
   a \<in> set (accesses (svLocalCache s)) \<or>
   (fst (RecordAccess (hotKeyDet s) key now) \<and> (a = Lookup key \<or> (\<exists>v. a = Store key v)))"
  by (auto simp add: handleGetKey_def Let_def split_beta split: if_splits)

lemma handleSetKey_hotKeyDet [simp]:
  "accesses (hotKeys (hotKeyDet (snd (handleSetKey s key val now)))) =
   accesses (hotKeys (hotKeyDet s)) @ (if val = [] \<or> fst (redisSet (redisClient s) key val Hour) then [] else [Lookup key])"
  "items (hotKeys (hotKeyDet (snd (handleSetKey s key val now)))) = items (hotKeys (hotKeyDet s))"
  by (simp_all add: handleSetKey_def Let_def split_beta IsHotKey_def)

lemma handleSetKey_cache_accesses:
  "a \<in> set (accesses (svLocalCache (snd (handleSetKey s key val now)))) \<Longrightarrow>
   a \<in> set (accesses (svLocalCache s)) \<or>
   (items (hotKeys (hotKeyDet s)) key \<noteq> None \<and> a = Store key val)"
  by (auto simp add: handleSetKey_def Let_def split_beta IsHotKey_def cacheGet_def split: if_splits option.splits)

lemma handleKeyStats_sel [simp]:
  "accesses (hotKeys (hotKeyDet (snd (handleKeyStats s key now)))) = accesses (hotKeys (hotKeyDet s)) @ [Lookup key]"
  "items (hotKeys (hotKeyDet (snd (handleKeyStats s key now)))) = items (hotKeys (hotKeyDet s))"
  "accesses (svLocalCache (snd (handleKeyStats s key now))) = accesses (svLocalCache s) @ [Lookup key]"
  by (simp_all add: handleKeyStats_def Let_def split_beta IsHotKey_def GetAccessCount_def)

lemma RecordAccess_hotKeys_items:
  "items (hotKeys (snd (RecordAccess d key now))) k \<noteq> None \<Longrightarrow>
   items (hotKeys d) k \<noteq> None \<or> (k = key \<and> Store key ''true'' \<in> set (accesses (hotKeys (snd (RecordAccess d key now)))))"
  by (auto simp add: RecordAccess_def Let_def split_beta cacheSet_def split: if_splits)

lemma RecordAccess_hot_has_item:
  "fst (RecordAccess d key now) \<Longrightarrow> items (hotKeys (snd (RecordAccess d key now))) key \<noteq> None"
  by (auto simp add: RecordAccess_def Let_def split_beta cacheSet_def cacheGet_def split: if_splits option.splits)

lemma RecordAccess_hotKeys_mono:
  "a \<in> set (accesses (hotKeys d)) \<Longrightarrow> a \<in> set (accesses (hotKeys (snd (RecordAccess d key now))))"
  by (simp add: RecordAccess_hotKeys_accesses)


lemma storedKeys_iff: "key \<in> set (storedKeys as) \<longleftrightarrow> (\<exists>v. Store key v \<in> set as)"
  by (induction as rule: storedKeys.induct) auto

lemma statsKeys_snoc: "set (statsKeys (reqs @ [r])) = set (statsKeys reqs) \<union> set (statsKeys [r])"
  by (induction reqs rule: statsKeys.induct) auto

lemma coldInv_init: "coldInv (NewServer r) []"
  by (simp add: coldInv_def NewServer_def NewDefaultHotKeyDetector_def NewHotKeyDetector_def
      NewLocalCache_def cacheWritten_def cacheLookedUp_def)

lemma coldInv_step:
  assumes "coldInv s reqs"
  shows "coldInv (serve s r) (reqs @ [r])"
proof (cases r)
  case (Read key now)
  let ?s = "snd (handleGetKey s key now)"
  have mono: "\<And>k. flagged s k \<Longrightarrow> flagged ?s k"
    by (simp add: flagged_def RecordAccess_hotKeys_mono)
  have hot: "fst (RecordAccess (hotKeyDet s) key now) \<Longrightarrow> flagged ?s key"
    using RecordAccess_hot_has_item[of "hotKeyDet s" key now]
      RecordAccess_hotKeys_items[of "hotKeyDet s" key now key] assms
    unfolding coldInv_def flagged_def
    by (auto simp: RecordAccess_hotKeys_mono)
  have 1: "\<And>k. items (hotKeys (hotKeyDet ?s)) k \<noteq> None \<Longrightarrow> flagged ?s k"
    using RecordAccess_hotKeys_items[of "hotKeyDet s" key now] assms mono
    unfolding coldInv_def by (fastforce simp: flagged_def)
  have 2: "\<And>k. cacheWritten ?s k \<Longrightarrow> flagged ?s k"
    using handleGetKey_cache_accesses[of _ s key now] assms mono hot
    unfolding coldInv_def cacheWritten_def storedKeys_iff by blast
  have 3: "\<And>k. cacheLookedUp ?s k \<Longrightarrow> flagged ?s k \<or> k \<in> set (statsKeys reqs)"
    using handleGetKey_cache_accesses[of _ s key now] assms mono hot
    unfolding coldInv_def cacheLookedUp_def by blast
  show ?thesis using 1 2 3 Read by (simp add: coldInv_def statsKeys_snoc)
next
  case (Write key val now)
  let ?s = "snd (handleSetKey s key val now)"
  have mono: "\<And>k. flagged s k \<Longrightarrow> flagged ?s k"
    by (simp add: flagged_def)
  have 1: "\<And>k. items (hotKeys (hotKeyDet ?s)) k \<noteq> None \<Longrightarrow> flagged ?s k"
    using assms mono unfolding coldInv_def by simp
  have 2: "\<And>k. cacheWritten ?s k \<Longrightarrow> flagged ?s k"
    using handleSetKey_cache_accesses[of _ s key val now] assms mono
    unfolding coldInv_def cacheWritten_def storedKeys_iff by blast
  have 3: "\<And>k. cacheLookedUp ?s k \<Longrightarrow> flagged ?s k \<or> k \<in> set (statsKeys reqs)"
    using handleSetKey_cache_accesses[of _ s key val now] assms mono
    unfolding coldInv_def cacheLookedUp_def by blast
  show ?thesis using 1 2 3 Write by (simp add: coldInv_def statsKeys_snoc)
next
  case (Stats key now)
  show ?thesis using assms Stats
    by (auto simp add: coldInv_def statsKeys_snoc flagged_def cacheWritten_def cacheLookedUp_def storedKeys_iff)
qed

lemma coldInv_run: "coldInv (foldl serve (NewServer r) reqs) reqs"
proof (induction reqs rule: rev_induct)
  case Nil
  show ?case by (simp add: coldInv_init)
next
  case (snoc x xs)
  then show ?case using coldInv_step by simp
qed

text \<open>
  C5 as stated, refuted.  The claim: no operation (read, write or stats) ever looks
  a never-flagged key up in the fallback cache or writes it there.  A stats request
  looks its key up in the fallback cache whether the key is hot or not: on a fresh
  server, after one stats request for \<open>k\<close>, the key has not been flagged and
  the cache has been asked for it.
\<close>

theorem stats_looks_up_cold_key: "\<not> flagged (serve (NewServer emptyRedis) (Stats ''k'' 0)) ''k''
   \<and> cacheLookedUp (serve (NewServer emptyRedis) (Stats ''k'' 0)) ''k''"
  by (simp add: flagged_def cacheLookedUp_def NewServer_def NewDefaultHotKeyDetector_def NewHotKeyDetector_def
      NewLocalCache_def)

text \<open>
  C5 as amended.  After any run of read, write and stats requests on a fresh server,
  a key that has never been flagged hot has never been written to the fallback
  cache (a write for a cold key bypasses the cache), and it has been looked up
  there only if the run holds a stats request for it: reads and writes never look
  it up.
\<close>

theorem cold_key_not_cached_by_reads_and_writes:
  assumes "\<not> flagged (foldl serve (NewServer r) reqs) key"
  shows "\<not> cacheWritten (foldl serve (NewServer r) reqs) key
         \<and> (cacheLookedUp (foldl serve (NewServer r) reqs) key \<longrightarrow> key \<in> set (statsKeys reqs))"
  using coldInv_run[of r reqs] assms unfolding coldInv_def by blast


theorem cold_key_not_cached_by_reads_and_writes_witness:
  "\<not> flagged (foldl serve (NewServer emptyRedis) [Write ''k'' ''v'' 0, Read ''k'' 1]) ''k''
   \<and> \<not> cacheWritten (foldl serve (NewServer emptyRedis) [Write ''k'' ''v'' 0, Read ''k'' 1]) ''k''
   \<and> \<not> cacheLookedUp (foldl serve (NewServer emptyRedis) [Write ''k'' ''v'' 0, Read ''k'' 1]) ''k''"
proof -
  have h: "\<not> flagged (foldl serve (NewServer emptyRedis) [Write ''k'' ''v'' 0, Read ''k'' 1]) ''k''"
    by (simp add: flagged_def RecordAccess_hotKeys_accesses handleSetKey_def redisSet_def
        IsHotKey_def RecordAccess_def NewServer_def emptyRedis_def NewDefaultHotKeyDetector_def
        NewHotKeyDetector_def DefaultHotKeyConfig_def NewLocalCache_def cacheGet_def
        cacheSet_def String_1 Let_def time_units)
  from cold_key_not_cached_by_reads_and_writes [OF h] h show ?thesis by simp
qed


section \<open>The outcomes of a read\<close>

lemma handleGetKey_response:
  "fst (handleGetKey s key now) =
     (if servedFromCache s key now then
        (StatusOK, [(''value'', JString (fst (fst (cacheGet (svLocalCache s) key now)))),
                    (''source'', JString ''local_cache'')])
      else if throttled s key now then
        (StatusTooManyRequests, [(''error'', JString ''Too many requests for this hot key'')])
      else if \<not> reachable (redisClient s) then
        (StatusInternalServerError, [(''error'', JString ''Failed to get value from Redis'')])
      else case kv (redisClient s) key of
             None \<Rightarrow> (StatusNotFound, [(''error'', JString ''Key not found'')])
           | Some val \<Rightarrow>
               if val = [] then (StatusNotFound, [(''error'', JString ''Key not found'')])
               else (StatusOK, [(''value'', JString val), (''source'', JString ''redis'')]))"
  by (simp add: handleGetKey_def servedFromCache_def throttled_def detectedHot_def Let_def split_beta
      redisGet_def clientGet_def split: option.splits)

text \<open>
  C6 as stated, refuted.  The claim: a read that is not throttled and whose store call
  does not fail answers ``not found'' exactly when the key is absent from the store.
  The client returns the empty string for an absent key and the handler takes the
  empty string for absence, so a key that holds the empty string is reported as not
  found: on a fresh server over a reachable store where \<open>k\<close> holds the empty
  string, the read of \<open>k\<close> is not throttled and is answered 404.
\<close>

theorem empty_value_reported_not_found: "kv emptyValueRedis ''k'' \<noteq> None \<and> reachable emptyValueRedis
  \<and> \<not> throttled (NewServer emptyValueRedis) ''k'' 0
  \<and> fst (handleGetKey (NewServer emptyValueRedis) ''k'' 0) = (StatusNotFound, [(''error'', JString ''Key not found'')])"
  by (simp add: handleGetKey_response servedFromCache_def throttled_def detectedHot_def  NewServer_def emptyValueRedis_def RecordAccess_def
      NewDefaultHotKeyDetector_def NewHotKeyDetector_def DefaultHotKeyConfig_def
      NewLocalCache_def cacheGet_def cacheSet_def String_1 Let_def time_units)

text \<open>
  C6 as amended.  A read is answered from the fallback cache (200), or throttled
  (429), or, when it reaches the store, answered 500 if the store call fails, 404
  if the store holds no value or the empty string for the key, and 200 with the
  value otherwise.  So for a read that reaches the store and does not fail, ``not
  found'' means: absent or empty.  The status codes of the outcomes are distinct.
\<close>

theorem read_outcomes:
  "fst (fst (handleGetKey s key now)) =
     (if servedFromCache s key now then StatusOK
      else if throttled s key now then StatusTooManyRequests
      else if \<not> reachable (redisClient s) then StatusInternalServerError
      else if kv (redisClient s) key = None \<or> kv (redisClient s) key = Some [] then StatusNotFound
      else StatusOK)
   \<and> distinct [StatusOK, StatusNotFound, StatusTooManyRequests, StatusInternalServerError]"
  by (auto simp add: handleGetKey_response StatusOK_def StatusNotFound_def StatusTooManyRequests_def StatusInternalServerError_def split: option.splits)


section \<open>The lifetime of a hot flag\<close>

lemma IsHotKey_fst:
  "fst (IsHotKey d key now) =
     (case items (hotKeys d) key of None \<Rightarrow> False
      | Some it \<Rightarrow> \<not> (Expiration it > 0 \<and> now > Expiration it))"
  by (simp add: IsHotKey_def cacheGet_def Let_def split_beta split: option.splits)

lemma RecordAccess_marks:
  assumes "\<not> fst (IsHotKey d key now)" "fst (RecordAccess d key now)"
  shows "items (hotKeys (snd (RecordAccess d key now))) key =
           Some \<lparr>Object = ''true'',
                 Expiration = (if (if HotKeyExpiration (config d) = 0 then defaultExpiration (hotKeys d)
                                   else HotKeyExpiration (config d)) > 0
                               then now + (if HotKeyExpiration (config d) = 0 then defaultExpiration (hotKeys d)
                                   else HotKeyExpiration (config d)) else 0)\<rparr>"
  using assms
  by (auto simp add: IsHotKey_def RecordAccess_def Let_def split_beta cacheSet_def split: if_splits)

lemma RecordAccess_keeps_live_flag:
  assumes "items (hotKeys d) key = Some it"
    and "k = key \<longrightarrow> \<not> (Expiration it > 0 \<and> now > Expiration it)"
  shows "items (hotKeys (snd (RecordAccess d k now))) key = Some it"
  using assms
  by (auto simp add: RecordAccess_def Let_def split_beta cacheSet_def cacheGet_def split: if_splits option.splits)

lemma recordAll_keeps_live_flag:
  assumes "items (hotKeys d) key = Some it"
    and "\<forall>(k, t) \<in> set as. k = key \<longrightarrow> \<not> (Expiration it > 0 \<and> t > Expiration it)"
  shows "items (hotKeys (recordAll d as)) key = Some it"
  using assms
proof (induction as arbitrary: d)
  case Nil
  then show ?case by simp
next
  case (Cons a as)
  obtain k t where a: "a = (k, t)" by (cases a)
  have "items (hotKeys (snd (RecordAccess d k t))) key = Some it"
    using Cons.prems a by (intro RecordAccess_keeps_live_flag) auto
  then show ?case using Cons a by simp
qed

text \<open>
  C4.  Let an access at time \<open>t0\<close> mark a key hot: the key was not hot and the
  access made its count reach the threshold.  With a positive hot-key expiration,
  and whatever accesses follow (to any key; to this key only up to the flag's
  expiry, so that no new marking takes place), \<open>IsHotKey\<close> answers true at every
  later time up to \<open>t0 + HotKeyExpiration\<close> and false at every time after it.
  The list of later accesses may be empty.  Times are nanoseconds since the epoch.
\<close>

theorem hot_flag_lifetime:
  assumes mark: "\<not> fst (IsHotKey d key t0)" "fst (RecordAccess d key t0)"
    and ttl: "0 < HotKeyExpiration (config d)" and t0: "0 \<le> t0"
    and later: "\<forall>(k, t) \<in> set as. k = key \<longrightarrow> t \<le> t0 + HotKeyExpiration (config d)"
    and t: "t0 \<le> t"
  shows "fst (IsHotKey (recordAll (snd (RecordAccess d key t0)) as) key t)
           = (t \<le> t0 + HotKeyExpiration (config d))"
proof -
  let ?it = "\<lparr>Object = ''true'', Expiration = t0 + HotKeyExpiration (config d)\<rparr>"
  have 1: "items (hotKeys (snd (RecordAccess d key t0))) key = Some ?it"
    using RecordAccess_marks[OF mark] ttl by simp
  have 2: "items (hotKeys (recordAll (snd (RecordAccess d key t0)) as)) key = Some ?it"
    using later by (intro recordAll_keeps_live_flag[OF 1]) auto
  show ?thesis using 2 ttl t0 by (auto simp add: IsHotKey_fst)
qed


theorem hot_flag_lifetime_witness:
  "\<not> fst (IsHotKey (NewHotKeyDetector thresholdOneConfig) ''k'' 0)
   \<and> fst (RecordAccess (NewHotKeyDetector thresholdOneConfig) ''k'' 0)
   \<and> fst (IsHotKey (recordAll (snd (RecordAccess (NewHotKeyDetector thresholdOneConfig) ''k'' 0))
                         [(''k'', 5), (''j'', 7)]) ''k'' 300000000000)
   \<and> \<not> fst (IsHotKey (recordAll (snd (RecordAccess (NewHotKeyDetector thresholdOneConfig) ''k'' 0))
                         [(''k'', 5), (''j'', 7)]) ''k'' 300000000001)"
proof -
  let ?d = "NewHotKeyDetector thresholdOneConfig"
  have a: "\<not> fst (IsHotKey ?d ''k'' 0)"
    by (simp add: IsHotKey_fst NewHotKeyDetector_def NewLocalCache_def)
  have b: "fst (RecordAccess ?d ''k'' 0)"
    by (simp add: RecordAccess_def NewHotKeyDetector_def thresholdOneConfig_def
        NewLocalCache_def cacheGet_def)
  have c: "0 < HotKeyExpiration (config ?d)" "HotKeyExpiration (config ?d) = 300000000000"
    by (simp_all add: NewHotKeyDetector_def thresholdOneConfig_def time_units)
  have e: "\<forall>(k, t) \<in> set [(''k'', 5), (''j'', 7)].
             k = ''k'' \<longrightarrow> t \<le> 0 + HotKeyExpiration (config ?d)"
    by (simp add: c(2))
  show ?thesis
    using hot_flag_lifetime [OF a b c(1) _ e, of 300000000000]
      hot_flag_lifetime [OF a b c(1) _ e, of 300000000001] a b
    by (simp add: c(2))
qed


section \<open>A count survives its stay in the cache\<close>

text \<open>
  The detector writes a count as a duration string and parses the string back.
  The lemmas of this section follow the formatter and the parser through the
  digits of the integer part, the digits of the fraction, the unit, and the
  sequence of hour, minute and second groups; the result is that parsing the
  string of any \<^verbatim>\<open>int64\<close> value gives the value back.
\<close>


lemma digitChar_of_char: "d < 10 \<Longrightarrow> (of_char (digitChar d) :: nat) = d + 48"
  by (simp add: digitChar_def)

lemma digitChar_isDigit: "d < 10 \<Longrightarrow> isDigit (digitChar d)"
  by (simp add: isDigit_def digitChar_of_char)

lemma leadingInt_fmtIntLoop:
  "\<exists>k. \<forall>x buf. x * 10 ^ k + v \<le> 2 ^ 63 \<longrightarrow>
         leadingInt x (fmtIntLoop buf v) = leadingInt (x * 10 ^ k + v) buf"
proof (induction v rule: less_induct)
  case (less v)
  show ?case
  proof (cases "v = 0")
    case True
    then show ?thesis by (intro exI[of _ 0]) (simp add: fmtIntLoop.simps)
  next
    case False
    then have "v div 10 < v" by simp
    from less[OF this] obtain k where
      k: "\<And>x buf. x * 10 ^ k + v div 10 \<le> 2 ^ 63 \<Longrightarrow>
            leadingInt x (fmtIntLoop buf (v div 10)) = leadingInt (x * 10 ^ k + v div 10) buf"
      by blast
    have "\<forall>x buf. x * 10 ^ Suc k + v \<le> 2 ^ 63 \<longrightarrow>
            leadingInt x (fmtIntLoop buf v) = leadingInt (x * 10 ^ Suc k + v) buf"
    proof (intro allI impI)
      fix x :: nat and buf
      assume b: "x * 10 ^ Suc k + v \<le> 2 ^ 63"
      let ?X = "x * 10 ^ k + v div 10"
      have e: "?X * 10 + v mod 10 = x * 10 ^ Suc k + v"
        by (simp add: algebra_simps)
      have X1: "?X * 10 + v mod 10 \<le> 2 ^ 63" using b e by simp
      then have X2: "?X \<le> 2 ^ 63 div 10" by simp
      then have X3: "?X \<le> 2 ^ 63" by simp
      have "leadingInt x (fmtIntLoop buf v) =
              leadingInt x (fmtIntLoop (digitChar (v mod 10) # buf) (v div 10))"
        using False by (subst fmtIntLoop.simps) simp
      also have "\<dots> = leadingInt ?X (digitChar (v mod 10) # buf)"
        by (rule k[OF X3])
      also have "\<dots> = leadingInt (?X * 10 + v mod 10) buf"
        using X1 X2 by (simp add: digitChar_isDigit digitChar_of_char Let_def)
      also have "\<dots> = leadingInt (x * 10 ^ Suc k + v) buf"
        by (simp only: e)
      finally show "leadingInt x (fmtIntLoop buf v) = leadingInt (x * 10 ^ Suc k + v) buf" .
    qed
    then show ?thesis by blast
  qed
qed

lemma leadingInt_stop: "buf = [] \<or> \<not> isDigit (hd buf) \<Longrightarrow> leadingInt v buf = Some (v, buf)"
  by (cases buf) auto

lemma leadingInt_fmtInt:
  assumes "v \<le> 2 ^ 63" "buf = [] \<or> \<not> isDigit (hd buf)"
  shows "leadingInt 0 (fmtInt buf v) = Some (v, buf)"
proof (cases "v = 0")
  case True
  then show ?thesis using assms(2) by (simp add: fmtInt_def isDigit_def leadingInt_stop)
next
  case False
  obtain k where "\<And>x buf. x * 10 ^ k + v \<le> 2 ^ 63 \<Longrightarrow>
         leadingInt x (fmtIntLoop buf v) = leadingInt (x * 10 ^ k + v) buf"
    using leadingInt_fmtIntLoop[of v] by blast
  from this[of 0 buf] assms show ?thesis using False
    by (simp add: fmtInt_def leadingInt_stop)
qed

lemma fmtIntLoop_shape:
  "0 < v \<Longrightarrow> \<exists>ds. fmtIntLoop buf v = ds @ buf \<and> ds \<noteq> [] \<and> isDigit (hd ds)"
proof (induction v arbitrary: buf rule: less_induct)
  case (less v)
  have s: "fmtIntLoop buf v = fmtIntLoop (digitChar (v mod 10) # buf) (v div 10)"
    using less.prems by (subst fmtIntLoop.simps) simp
  show ?case
  proof (cases "v div 10 = 0")
    case True
    then have "fmtIntLoop buf v = [digitChar (v mod 10)] @ buf"
      using s by (simp add: fmtIntLoop.simps)
    then show ?thesis using digitChar_isDigit[of "v mod 10"] by force
  next
    case False
    then have "v div 10 < v" "0 < v div 10" by simp_all
    from less.IH[OF this, of "digitChar (v mod 10) # buf"] obtain ds where
      "fmtIntLoop (digitChar (v mod 10) # buf) (v div 10) = ds @ digitChar (v mod 10) # buf"
      "ds \<noteq> []" "isDigit (hd ds)" by blast
    then have "fmtIntLoop buf v = (ds @ [digitChar (v mod 10)]) @ buf \<and> ds @ [digitChar (v mod 10)] \<noteq> []
       \<and> isDigit (hd (ds @ [digitChar (v mod 10)]))"
      using s by simp
    then show ?thesis by blast
  qed
qed

lemma fmtInt_shape: "\<exists>ds. fmtInt buf v = ds @ buf \<and> ds \<noteq> [] \<and> isDigit (hd ds)"
proof (cases "v = 0")
  case True
  have "fmtInt buf v = [CHR ''0''] @ buf \<and> [CHR ''0''] \<noteq> [] \<and> isDigit (hd [CHR ''0''])"
    using True by (simp add: fmtInt_def isDigit_def)
  then show ?thesis by blast
next
  case False
  then show ?thesis using fmtIntLoop_shape[of v buf] by (simp add: fmtInt_def)
qed


lemma decVal_snoc: "decVal x (ds @ [c]) = decVal x ds * 10 + (of_char c - 48)"
  by (simp add: decVal_def)

lemma decVal_Cons: "decVal x (c # ds) = decVal (x * 10 + (of_char c - 48)) ds"
  by (simp add: decVal_def)

lemma decVal_Nil: "decVal x [] = x"
  by (simp add: decVal_def)

lemma decVal_ge: "x \<le> decVal x ds"
proof (induction ds arbitrary: x)
  case Nil
  show ?case by (simp add: decVal_Nil)
next
  case (Cons c ds)
  have "x \<le> x * 10 + (of_char c - 48)" by simp
  also have "\<dots> \<le> decVal (x * 10 + (of_char c - 48)) ds" by (rule Cons.IH)
  finally show ?case by (simp add: decVal_Cons)
qed

lemma fmtFracLoop_shape:
  "\<exists>ds. fmtFracLoop n buf v pr = (ds @ buf, v div 10 ^ n, pr \<or> ds \<noteq> [])
        \<and> list_all isDigit ds \<and> length ds \<le> n \<and> (pr \<longrightarrow> length ds = n)
        \<and> decVal 0 ds * 10 ^ (n - length ds) = v mod 10 ^ n"
proof (induction n arbitrary: buf v pr)
  case 0
  show ?case by (intro exI[of _ "[]"]) (simp add: decVal_Nil)
next
  case (Suc n)
  let ?d = "v mod 10"
  let ?pr = "pr \<or> ?d \<noteq> 0"
  let ?buf = "if ?pr then digitChar ?d # buf else buf"
  from Suc.IH[of ?buf "v div 10" ?pr] obtain ds where
    ds: "fmtFracLoop n ?buf (v div 10) ?pr = (ds @ ?buf, v div 10 div 10 ^ n, ?pr \<or> ds \<noteq> [])"
      "list_all isDigit ds" "length ds \<le> n" "?pr \<longrightarrow> length ds = n"
      "decVal 0 ds * 10 ^ (n - length ds) = v div 10 mod 10 ^ n"
    by blast
  have step: "fmtFracLoop (Suc n) buf v pr = fmtFracLoop n ?buf (v div 10) ?pr"
    by (simp add: Let_def)
  have modeq: "v mod 10 ^ Suc n = (v div 10 mod 10 ^ n) * 10 + v mod 10"
    by (simp add: mod_mult2_eq)
  have diveq: "v div 10 div 10 ^ n = v div 10 ^ Suc n"
    by (simp add: div_mult2_eq)
  have r: "fmtFracLoop (Suc n) buf v pr = (ds @ ?buf, v div 10 ^ Suc n, ?pr \<or> ds \<noteq> [])"
    by (simp only: step ds(1) diveq)
  show ?case
  proof (cases ?pr)
    case True
    let ?ds = "ds @ [digitChar ?d]"
    have len: "length ds = n" using ds(4) True by blast
    have "fmtFracLoop (Suc n) buf v pr = (?ds @ buf, v div 10 ^ Suc n, pr \<or> ?ds \<noteq> [])"
      using r True by auto
    moreover have "list_all isDigit ?ds"
      using ds(2) by (simp add: digitChar_isDigit)
    moreover have "length ?ds \<le> Suc n" "pr \<longrightarrow> length ?ds = Suc n"
      using len by simp_all
    moreover have "decVal 0 ?ds * 10 ^ (Suc n - length ?ds) = v mod 10 ^ Suc n"
      using ds(5) len modeq by (simp add: decVal_snoc digitChar_of_char)
    ultimately show ?thesis by blast
  next
    case False
    then have f: "\<not> pr" "v mod 10 = 0" by simp_all
    have "fmtFracLoop (Suc n) buf v pr = (ds @ buf, v div 10 ^ Suc n, pr \<or> ds \<noteq> [])"
      using r False by auto
    moreover have "length ds \<le> Suc n" "pr \<longrightarrow> length ds = Suc n"
      using ds(3) f by simp_all
    moreover have "decVal 0 ds * 10 ^ (Suc n - length ds) = v mod 10 ^ Suc n"
    proof -
      have "Suc n - length ds = Suc (n - length ds)" using ds(3) by simp
      then have "decVal 0 ds * 10 ^ (Suc n - length ds) = (decVal 0 ds * 10 ^ (n - length ds)) * 10"
        by simp
      then show ?thesis using ds(5) modeq f by simp
    qed
    ultimately show ?thesis using ds(2) by blast
  qed
qed

lemma leadingFraction_digits:
  assumes "list_all isDigit ds" "decVal x ds \<le> (2 ^ 63 - 1) div 10"
    "rest = [] \<or> \<not> isDigit (hd rest)"
  shows "leadingFraction x sc False (ds @ rest) = (decVal x ds, sc * 10 ^ length ds, rest)"
  using assms
proof (induction ds arbitrary: x sc)
  case Nil
  then show ?case by (cases rest) (auto simp add: decVal_Nil)
next
  case (Cons c ds)
  let ?y = "x * 10 + (of_char c - 48)"
  have d: "isDigit c" "list_all isDigit ds" using Cons.prems(1) by simp_all
  have b: "decVal ?y ds \<le> (2 ^ 63 - 1) div 10" using Cons.prems(2) by (simp add: decVal_Cons)
  have "x \<le> decVal x (c # ds)" by (rule decVal_ge)
  then have x: "x \<le> (2 ^ 63 - 1) div 10" using Cons.prems(2) by linarith
  have "?y \<le> decVal ?y ds" by (rule decVal_ge)
  then have y: "?y \<le> 2 ^ 63" using b by simp
  have c48: "48 \<le> (of_char c :: nat)" using d(1) by (simp add: isDigit_def)
  have yy: "x * 10 + of_char c - 48 = ?y" using c48 by simp
  have "leadingFraction x sc False ((c # ds) @ rest) = leadingFraction ?y (sc * 10) False (ds @ rest)"
    using d(1) x y yy by (simp add: Let_def)
  also have "\<dots> = (decVal ?y ds, sc * 10 * 10 ^ length ds, rest)"
    by (rule Cons.IH[OF d(2) b Cons.prems(3)])
  finally show ?case by (simp add: decVal_Cons)
qed


lemma takeWhile_unit:
  "list_all P u \<Longrightarrow> rest = [] \<or> \<not> P (hd rest) \<Longrightarrow>
   takeWhile P (u @ rest) = u \<and> dropWhile P (u @ rest) = rest"
proof (induction u)
  case Nil
  then show ?case by (cases rest) auto
next
  case (Cons a u)
  then show ?case by simp
qed

lemma isDigit_isNumChar: "isDigit c \<Longrightarrow> isNumChar c"
  by (simp add: isNumChar_def)

lemma parseTerm_formatted:
  assumes ds: "list_all isDigit ds" "decVal 0 ds \<le> 10 ^ 9"
    and u: "u \<noteq> []" "list_all (\<lambda>c. \<not> isNumChar c) u" "unitMap u = Some U"
    and rest: "rest = [] \<or> isNumChar (hd rest)"
    and v: "v \<le> 2 ^ 63 div U" "v * U + (decVal 0 ds * U) div 10 ^ length ds \<le> 2 ^ 63"
  shows "parseTerm (fmtInt ((if ds = [] then [] else CHR ''.'' # ds) @ u @ rest) v) =
           Some (v * U + (decVal 0 ds * U) div 10 ^ length ds, rest)"
proof -
  let ?B = "(if ds = [] then [] else CHR ''.'' # ds) @ u @ rest"
  obtain dsi where dsi: "fmtInt ?B v = dsi @ ?B" "dsi \<noteq> []" "isDigit (hd dsi)"
    using fmtInt_shape[of ?B v] by blast
  then obtain c0 s' where s: "fmtInt ?B v = c0 # s'" and c0: "isDigit c0"
    by (cases dsi) auto
  obtain cu u' where cu: "u = cu # u'" "\<not> isNumChar cu"
    using u(1,2) by (cases u) auto
  have hdB: "?B = [] \<or> \<not> isDigit (hd ?B)"
    using cu by (auto simp add: isNumChar_def isDigit_def)
  have "v \<le> 2 ^ 63 div U" by (rule v(1))
  also have "\<dots> \<le> 2 ^ 63" by simp
  finally have v63: "v \<le> 2 ^ 63" .
  have li: "leadingInt 0 (c0 # s') = Some (v, ?B)"
    using leadingInt_fmtInt[OF v63 hdB] s by simp
  have len: "length (c0 # s') \<noteq> length ?B"
    using dsi(1,2) s by (metis append_self_conv2 append_eq_append_conv)
  have tw: "takeWhile (\<lambda>c. \<not> isNumChar c) (u @ rest) = u"
           "dropWhile (\<lambda>c. \<not> isNumChar c) (u @ rest) = rest"
    using takeWhile_unit[of "\<lambda>c. \<not> isNumChar c" u rest] u(2) rest by auto
  show ?thesis
  proof (cases "ds = []")
    case True
    have B: "?B = cu # u' @ rest" using True cu by simp
    have cu': "cu \<noteq> CHR ''.''" using cu(2) by (auto simp add: isNumChar_def)
    show ?thesis
      unfolding parseTerm_def s
      using li len c0 tw u v True cu' cu(1)
      by (simp add: isDigit_isNumChar Let_def decVal_Nil del: leadingInt.simps)
  next
    case False
    have nd: "u @ rest = [] \<or> \<not> isDigit (hd (u @ rest))"
      using cu by (auto simp add: isNumChar_def)
    have b: "decVal 0 ds \<le> (2 ^ 63 - 1) div 10" using ds(2) by simp
    have lf: "leadingFraction 0 1 False (ds @ u @ rest) = (decVal 0 ds, 10 ^ length ds, u @ rest)"
      using leadingFraction_digits[OF ds(1) b nd, of 1] by simp
    have B: "?B = CHR ''.'' # ds @ u @ rest" using False by simp
    have z: "decVal 0 ds = 0 \<Longrightarrow> decVal 0 ds * U div 10 ^ length ds = 0" by simp
    show ?thesis
      unfolding parseTerm_def s
      using li len c0 tw u v False lf z
      by (simp add: isDigit_isNumChar Let_def del: leadingInt.simps leadingFraction.simps)
  qed
qed


lemma fmtFrac_shape:
  "\<exists>ds. fmtFrac buf v prec = ((if ds = [] then [] else CHR ''.'' # ds) @ buf, v div 10 ^ prec)
        \<and> list_all isDigit ds \<and> length ds \<le> prec
        \<and> decVal 0 ds * 10 ^ (prec - length ds) = v mod 10 ^ prec"
proof -
  obtain ds where ds: "fmtFracLoop prec buf v False = (ds @ buf, v div 10 ^ prec, False \<or> ds \<noteq> [])"
    "list_all isDigit ds" "length ds \<le> prec"
    "decVal 0 ds * 10 ^ (prec - length ds) = v mod 10 ^ prec"
    using fmtFracLoop_shape[of prec buf v False] by blast
  have "fmtFrac buf v prec = ((if ds = [] then [] else CHR ''.'' # ds) @ buf, v div 10 ^ prec)"
    using ds(1) by (simp add: fmtFrac_def)
  then show ?thesis using ds(2,3,4) by blast
qed

lemma frac_value:
  assumes "length ds \<le> prec" "decVal 0 ds * 10 ^ (prec - length ds) = m"
  shows "(decVal 0 ds * 10 ^ prec) div 10 ^ length ds = (m::nat)"
proof -
  have "(10::nat) ^ prec = 10 ^ (prec - length ds) * 10 ^ length ds"
    using assms(1) by (simp flip: power_add)
  then have "decVal 0 ds * 10 ^ prec = (decVal 0 ds * 10 ^ (prec - length ds)) * 10 ^ length ds"
    by simp
  then show ?thesis using assms(2) by simp
qed

lemma parseTerm_last:
  assumes u: "u \<noteq> []" "list_all (\<lambda>c. \<not> isNumChar c) u" "unitMap u = Some (10 ^ prec)"
    and prec: "prec \<le> 9"
    and f: "fmtFrac u v prec = (buf, q)"
    and b: "w * 10 ^ prec + v mod 10 ^ prec \<le> 2 ^ 63"
  shows "parseTerm (fmtInt buf w) = Some (w * 10 ^ prec + v mod 10 ^ prec, [])"
proof -
  obtain ds where ds: "fmtFrac u v prec = ((if ds = [] then [] else CHR ''.'' # ds) @ u, v div 10 ^ prec)"
    "list_all isDigit ds" "length ds \<le> prec"
    "decVal 0 ds * 10 ^ (prec - length ds) = v mod 10 ^ prec"
    using fmtFrac_shape[of u v prec] by blast
  have buf: "buf = (if ds = [] then [] else CHR ''.'' # ds) @ u @ []"
    using f ds(1) by simp
  have fv: "(decVal 0 ds * 10 ^ prec) div 10 ^ length ds = v mod 10 ^ prec"
    by (rule frac_value[OF ds(3,4)])
  have "decVal 0 ds \<le> decVal 0 ds * 10 ^ (prec - length ds)" by simp
  also have "\<dots> < 10 ^ prec" using ds(4) by simp
  also have "\<dots> \<le> (10::nat) ^ 9" using prec by (intro power_increasing) simp_all
  finally have d9: "decVal 0 ds \<le> 10 ^ 9" by simp
  have "w * 10 ^ prec \<le> 2 ^ 63" using b by linarith
  then have w: "w \<le> 2 ^ 63 div 10 ^ prec"
    by (simp add: less_eq_div_iff_mult_less_eq)
  have "parseTerm (fmtInt ((if ds = [] then [] else CHR ''.'' # ds) @ u @ []) w) =
          Some (w * 10 ^ prec + (decVal 0 ds * 10 ^ prec) div 10 ^ length ds, [])"
    by (rule parseTerm_formatted[OF ds(2) d9 u _ w]) (use b fv in simp_all)
  then show ?thesis using buf fv by simp
qed

lemma parseTerm_middle:
  assumes u: "u \<noteq> []" "list_all (\<lambda>c. \<not> isNumChar c) u" "unitMap u = Some U" "0 < U"
    and rest: "isNumChar (hd rest)"
    and b: "w * U \<le> 2 ^ 63"
  shows "parseTerm (fmtInt (u @ rest) w) = Some (w * U, rest)"
proof -
  have w: "w \<le> 2 ^ 63 div U"
    using b u(4) by (simp add: less_eq_div_iff_mult_less_eq)
  show ?thesis
    using parseTerm_formatted[of "[]" u U rest w] u(1,2,3) rest b w
    by (simp add: decVal_Nil)
qed

lemma parseTerms_Nil: "parseTerms d [] = Some d"
  by (simp add: parseTerms.simps)

lemma parseTerms_step:
  assumes "parseTerm s = Some (v, s')" "length s' < length s" "d + v \<le> 2 ^ 63"
  shows "parseTerms d s = parseTerms (d + v) s'"
proof -
  have s: "s \<noteq> []" using assms(2) by auto
  have m: "(d + v) mod 2 ^ 64 = d + v" using assms(3) by simp
  show ?thesis
    by (subst parseTerms.simps) (use s assms m in \<open>simp add: Let_def\<close>)
qed

lemma fmtInt_longer: "length buf < length (fmtInt buf w)"
  using fmtInt_shape[of buf w] by (auto simp: neq_Nil_conv)

lemma fmtInt_hd: "isNumChar (hd (fmtInt buf w))"
  using fmtInt_shape[of buf w] by (auto simp: isDigit_isNumChar)

lemma fmtFrac_longer: "fmtFrac u v prec = (buf, q) \<Longrightarrow> length u \<le> length buf \<and> q = v div 10 ^ prec"
  using fmtFrac_shape[of u v prec] by auto


lemma unit_facts:
  "unitMap ''ns'' = Some (10 ^ 0)" "unitMap (microSign @ ''s'') = Some (10 ^ 3)"
  "unitMap ''ms'' = Some (10 ^ 6)" "unitMap ''s'' = Some (10 ^ 9)"
  "unitMap ''m'' = Some (60 * 10 ^ 9)" "unitMap ''h'' = Some (3600 * 10 ^ 9)"
  "list_all (\<lambda>c. \<not> isNumChar c) ''ns''" "list_all (\<lambda>c. \<not> isNumChar c) (microSign @ ''s'')"
  "list_all (\<lambda>c. \<not> isNumChar c) ''ms''" "list_all (\<lambda>c. \<not> isNumChar c) ''s''"
  "list_all (\<lambda>c. \<not> isNumChar c) ''m''" "list_all (\<lambda>c. \<not> isNumChar c) ''h''"
  by (simp_all add: unitMap_def time_units microSign_def isNumChar_def isDigit_def)

lemma fmtInt_shape2:
  "B \<noteq> [] \<Longrightarrow> \<exists>c r. fmtInt B w = c # r \<and> isDigit c \<and> r \<noteq> []"
proof -
  assume B: "B \<noteq> []"
  obtain ds where ds: "fmtInt B w = ds @ B" "ds \<noteq> []" "isDigit (hd ds)"
    using fmtInt_shape[of B w] by blast
  then obtain c ds' where c: "ds = c # ds'" by (cases ds) auto
  have "fmtInt B w = c # (ds' @ B) \<and> isDigit c \<and> ds' @ B \<noteq> []"
    using ds c B by simp
  then show ?thesis by blast
qed

lemma parse_subsecond:
  assumes u: "un \<noteq> []" "list_all (\<lambda>c. \<not> isNumChar c) un" "unitMap un = Some (10 ^ prec)"
    and prec: "prec \<le> 9" and v: "v \<le> 2 ^ 63"
  shows "parseTerms 0 (case fmtFrac un v prec of (buf, q) \<Rightarrow> fmtInt buf q) = Some v"
    and "\<exists>c r. (case fmtFrac un v prec of (buf, q) \<Rightarrow> fmtInt buf q) = c # r \<and> isDigit c \<and> r \<noteq> []"
proof -
  obtain buf q where f: "fmtFrac un v prec = (buf, q)" by (cases "fmtFrac un v prec")
  have q: "q = v div 10 ^ prec" and lb: "length un \<le> length buf"
    using fmtFrac_longer[OF f] by simp_all
  have e: "q * 10 ^ prec + v mod 10 ^ prec = v" unfolding q by (rule div_mult_mod_eq)
  have pt: "parseTerm (fmtInt buf q) = Some (q * 10 ^ prec + v mod 10 ^ prec, [])"
    by (rule parseTerm_last[OF u prec f]) (use e v in simp)
  have "parseTerms 0 (fmtInt buf q) = parseTerms (0 + v) []"
    by (rule parseTerms_step) (use pt e v fmtInt_longer[of buf q] in auto)
  then show "parseTerms 0 (case fmtFrac un v prec of (buf, q) \<Rightarrow> fmtInt buf q) = Some v"
    using f by (simp add: parseTerms_Nil)
  have "buf \<noteq> []" using lb u(1) by auto
  from fmtInt_shape2[OF this, of q]
  show "\<exists>c r. (case fmtFrac un v prec of (buf, q) \<Rightarrow> fmtInt buf q) = c # r \<and> isDigit c \<and> r \<noteq> []"
    using f by simp
qed

lemma hms_aux:
  "(v::nat) = s * 1000000000 + r \<Longrightarrow> s = m * 60 + a1 \<Longrightarrow> m = h * 60 + a2 \<Longrightarrow>
   v = h * 3600000000000 + a2 * 60000000000 + (a1 * 1000000000 + r)"
  by linarith

lemma hms_split:
  fixes v :: nat
  shows "v = (v div 10 ^ 9 div 60 div 60) * (3600 * 10 ^ 9) + (v div 10 ^ 9 div 60 mod 60) * (60 * 10 ^ 9)
            + ((v div 10 ^ 9 mod 60) * 10 ^ 9 + v mod 10 ^ 9)"
proof -
  have "v = (v div 1000000000 div 60 div 60) * 3600000000000
          + (v div 1000000000 div 60 mod 60) * 60000000000
          + ((v div 1000000000 mod 60) * 1000000000 + v mod 1000000000)"
    by (rule hms_aux[of v "v div 1000000000" _ "v div 1000000000 div 60"]) simp_all
  then show ?thesis by simp
qed

lemma parse_long:
  assumes v: "v \<le> 2 ^ 63"
  defines "long \<equiv> (case fmtFrac ''s'' v 9 of (buf, u1) \<Rightarrow>
           let buf1 = fmtInt buf (u1 mod 60); u2 = u1 div 60 in
           if u2 > 0 then
             let buf2 = fmtInt (CHR ''m'' # buf1) (u2 mod 60); u3 = u2 div 60 in
             if u3 > 0 then fmtInt (CHR ''h'' # buf2) u3 else buf2
           else buf1)"
  shows "parseTerms 0 long = Some v"
    and "\<exists>c r. long = c # r \<and> isDigit c \<and> r \<noteq> []"
proof -
  obtain buf q where f: "fmtFrac ''s'' v 9 = (buf, q)" by (cases "fmtFrac ''s'' v 9")
  have q: "q = v div 10 ^ 9" and lb: "length ''s'' \<le> length buf"
    using fmtFrac_longer[OF f] by simp_all
  have bufne: "buf \<noteq> []" using lb by auto
  let ?S = "(q mod 60) * 10 ^ 9 + v mod 10 ^ 9"
  let ?M = "(q div 60 mod 60) * (60 * 10 ^ 9)"
  let ?H = "(q div 60 div 60) * (3600 * 10 ^ 9)"
  let ?buf1 = "fmtInt buf (q mod 60)"
  let ?buf2 = "fmtInt (CHR ''m'' # ?buf1) (q div 60 mod 60)"
  let ?buf3 = "fmtInt (CHR ''h'' # ?buf2) (q div 60 div 60)"
  have split: "v = ?H + ?M + ?S" unfolding q by (rule hms_split)
  have bS: "?S \<le> 2 ^ 63" and bM: "?M \<le> 2 ^ 63" and bH: "?H \<le> 2 ^ 63"
    and bMS: "?M + ?S \<le> 2 ^ 63" and bHMS: "?H + (?M + ?S) \<le> 2 ^ 63"
    using split v by linarith+
  have pS: "parseTerm ?buf1 = Some (?S, [])"
    by (rule parseTerm_last[OF _ unit_facts(10) unit_facts(4) _ f bS]) simp_all
  have pM: "parseTerm ?buf2 = Some (?M, ?buf1)"
    using parseTerm_middle[of "''m''" "60 * 10 ^ 9" ?buf1 "q div 60 mod 60"]
      unit_facts(5,11) fmtInt_hd[of buf "q mod 60"] bM by simp
  have pH: "parseTerm ?buf3 = Some (?H, ?buf2)"
    using parseTerm_middle[of "''h''" "3600 * 10 ^ 9" ?buf2 "q div 60 div 60"]
      unit_facts(6,12) fmtInt_hd[of "CHR ''m'' # ?buf1" "q div 60 mod 60"] bH by simp
  have tS: "\<And>d. d + ?S \<le> 2 ^ 63 \<Longrightarrow> parseTerms d ?buf1 = Some (d + ?S)"
  proof -
    fix d assume "d + ?S \<le> 2 ^ 63"
    then have "parseTerms d ?buf1 = parseTerms (d + ?S) []"
      by (intro parseTerms_step[OF pS]) (use fmtInt_longer[of buf "q mod 60"] in auto)
    then show "parseTerms d ?buf1 = Some (d + ?S)" by (simp add: parseTerms_Nil)
  qed
  have l2: "length ?buf1 < length ?buf2"
    using fmtInt_longer[of "CHR ''m'' # ?buf1" "q div 60 mod 60"] by simp
  have l3: "length ?buf2 < length ?buf3"
    using fmtInt_longer[of "CHR ''h'' # ?buf2" "q div 60 div 60"] by simp
  have tM: "\<And>d. d + (?M + ?S) \<le> 2 ^ 63 \<Longrightarrow> parseTerms d ?buf2 = Some (d + (?M + ?S))"
  proof -
    fix d assume a: "d + (?M + ?S) \<le> 2 ^ 63"
    then have "parseTerms d ?buf2 = parseTerms (d + ?M) ?buf1"
      by (intro parseTerms_step[OF pM l2]) linarith
    also have "\<dots> = Some (d + ?M + ?S)"
      by (rule tS) (use a in linarith)
    finally show "parseTerms d ?buf2 = Some (d + (?M + ?S))" by (simp add: add.assoc)
  qed
  have tH: "parseTerms 0 ?buf3 = Some (?H + (?M + ?S))"
  proof -
    have "parseTerms 0 ?buf3 = parseTerms (0 + ?H) ?buf2"
      by (intro parseTerms_step[OF pH l3]) (use bH in simp)
    also have "\<dots> = Some (0 + ?H + (?M + ?S))"
      by (rule tM) (use bHMS in simp)
    finally show ?thesis by simp
  qed
  have long: "long = (if q div 60 > 0 then (if q div 60 div 60 > 0 then ?buf3 else ?buf2) else ?buf1)"
    unfolding long_def f by (simp add: Let_def)
  show "parseTerms 0 long = Some v"
  proof (cases "q div 60 > 0")
    case False
    then have "?M = 0" "?H = 0" by simp_all
    then have "v = ?S" using split by linarith
    then show ?thesis using long False tS[of 0] bS by simp
  next
    case True
    show ?thesis
    proof (cases "q div 60 div 60 > 0")
      case False
      then have "?H = 0" by simp
      then have "v = ?M + ?S" using split by linarith
      then show ?thesis using long True False tM[of 0] bMS by simp
    next
      case T2: True
      have "v = ?H + (?M + ?S)" using split by linarith
      then show ?thesis using long True T2 tH by simp
    qed
  qed
  have "\<exists>c r. ?buf1 = c # r \<and> isDigit c \<and> r \<noteq> []"
       "\<exists>c r. ?buf2 = c # r \<and> isDigit c \<and> r \<noteq> []"
       "\<exists>c r. ?buf3 = c # r \<and> isDigit c \<and> r \<noteq> []"
    using fmtInt_shape2[OF bufne] fmtInt_shape2[of "CHR ''m'' # ?buf1"] fmtInt_shape2[of "CHR ''h'' # ?buf2"]
    by simp_all
  then show "\<exists>c r. long = c # r \<and> isDigit c \<and> r \<noteq> []"
    unfolding long by presburger
qed


lemma format_parse:
  assumes "u \<le> 2 ^ 63"
  shows "parseTerms 0 (format u) = Some u"
    and "\<exists>c r. format u = c # r \<and> isDigit c \<and> r \<noteq> []"
proof -
  have sub: "\<And>un prec. un \<noteq> [] \<Longrightarrow> list_all (\<lambda>c. \<not> isNumChar c) un \<Longrightarrow>
      unitMap un = Some (10 ^ prec) \<Longrightarrow> prec \<le> 9 \<Longrightarrow>
      parseTerms 0 (case fmtFrac un u prec of (buf, q) \<Rightarrow> fmtInt buf q) = Some u
      \<and> (\<exists>c r. (case fmtFrac un u prec of (buf, q) \<Rightarrow> fmtInt buf q) = c # r \<and> isDigit c \<and> r \<noteq> [])"
    using parse_subsecond[OF _ _ _ _ assms] by blast
  have zero: "parseTerms 0 ''0s'' = Some 0"
    by (simp add: parseTerms.simps parseTerm_def isNumChar_def isDigit_def unitMap_def
        time_units microSign_def Let_def)
  consider (z) "u = 0" | (ns) "0 < u" "u < 1000" | (us) "1000 \<le> u" "u < 1000000"
    | (ms) "1000000 \<le> u" "u < 1000000000" | (s) "1000000000 \<le> u"
    by linarith
  then have "parseTerms 0 (format u) = Some u \<and> (\<exists>c r. format u = c # r \<and> isDigit c \<and> r \<noteq> [])"
  proof cases
    case z
    then show ?thesis using zero by (simp add: format_def time_units isDigit_def)
  next
    case ns
    then show ?thesis using sub[of "''ns''" 0] unit_facts(1,7)
      by (simp add: format_def time_units)
  next
    case us
    then show ?thesis using sub[of "microSign @ ''s''" 3] unit_facts(2,8)
      by (simp add: format_def time_units)
  next
    case ms
    then show ?thesis using sub[of "''ms''" 6] unit_facts(3,9)
      by (simp add: format_def time_units)
  next
    case s
    then have f: "format u = (case fmtFrac ''s'' u 9 of (buf, u1) \<Rightarrow>
           let buf1 = fmtInt buf (u1 mod 60); u2 = u1 div 60 in
           if u2 > 0 then
             let buf2 = fmtInt (CHR ''m'' # buf1) (u2 mod 60); u3 = u2 div 60 in
             if u3 > 0 then fmtInt (CHR ''h'' # buf2) u3 else buf2
           else buf1)"
      by (simp add: format_def time_units)
    show ?thesis unfolding f using parse_long[OF assms] by blast
  qed
  then show "parseTerms 0 (format u) = Some u"
    and "\<exists>c r. format u = c # r \<and> isDigit c \<and> r \<noteq> []" by blast+
qed

lemma int64_id: "- (2 ^ 63) \<le> n \<Longrightarrow> n < 2 ^ 63 \<Longrightarrow> int64 n = n"
  by (simp add: int64_def)

lemma ParseDuration_String:
  assumes "- (2 ^ 63) \<le> n" "n < 2 ^ 63"
  shows "ParseDuration (String n) = Some n"
proof (cases "n < 0")
  case False
  let ?u = "nat n"
  have u: "?u \<le> 2 ^ 63" "?u \<le> 2 ^ 63 - 1" using assms(2) False by simp_all
  obtain c r where cr: "format ?u = c # r" "isDigit c" "r \<noteq> []"
    using format_parse(2)[OF u(1)] by blast
  have c: "c \<noteq> CHR ''-''" "c \<noteq> CHR ''+''"
    using cr(2) by (auto simp add: isDigit_def)
  have p: "parseTerms 0 (c # r) = Some ?u"
    using format_parse(1)[OF u(1)] cr(1) by simp
  show ?thesis
    using False cr c p u(2) by (simp add: String_def ParseDuration_def)
next
  case True
  let ?u = "nat (- n)"
  have u: "?u \<le> 2 ^ 63" using assms(1) True by simp
  obtain c r where cr: "format ?u = c # r" "isDigit c" "r \<noteq> []"
    using format_parse(2)[OF u] by blast
  have p: "parseTerms 0 (c # r) = Some ?u"
    using format_parse(1)[OF u] cr(1) by simp
  have "int64 (- int ?u) = n" using True assms by (simp add: int64_id)
  then show ?thesis
    using True cr p by (simp add: String_def ParseDuration_def)
qed

lemma parsedCount_String: "- (2 ^ 63) \<le> n \<Longrightarrow> n < 2 ^ 63 \<Longrightarrow> parsedCount (String n) = n"
  by (simp add: parsedCount_def ParseDuration_String)


section \<open>The detection policy\<close>

lemma expiresAt_pos: "0 < dur \<Longrightarrow> expiresAt lc dur now = now + dur"
  by (simp add: expiresAt_def)

lemma fresh_item_live: "\<not> expired \<lparr>Object = v, Expiration = expiresAt lc dur now\<rparr> now"
  by (simp add: expired_def expiresAt_def Let_def)

lemma cacheGet_fst:
  "fst (cacheGet lc key now) =
     (case items lc key of None \<Rightarrow> ([], False)
      | Some it \<Rightarrow> if expired it now then ([], False) else (Object it, True))"
  by (simp add: cacheGet_def expired_def Let_def split: option.splits)

lemma cacheSet_items:
  "items (cacheSet lc key val dur now) =
     (items lc)(key \<mapsto> \<lparr>Object = val, Expiration = expiresAt lc dur now\<rparr>)"
  by (simp add: cacheSet_def expiresAt_def Let_def)

lemma IsHotKey_expired:
  "fst (IsHotKey d key now) =
     (case items (hotKeys d) key of None \<Rightarrow> False | Some it \<Rightarrow> \<not> expired it now)"
  by (simp add: IsHotKey_def cacheGet_fst split_beta split: option.splits)

lemma GetAccessCount_fst:
  "fst (GetAccessCount d key now) =
     (case items (localCache d) key of None \<Rightarrow> 0
      | Some it \<Rightarrow> if expired it now then 0 else parsedCount (Object it))"
  by (simp add: GetAccessCount_def cacheGet_fst split_beta split: option.splits)

lemma int64_range: "- (2 ^ 63) \<le> int64 x \<and> int64 x < 2 ^ 63"
proof -
  have "0 \<le> (x + 2 ^ 63) mod 2 ^ 64" "(x + 2 ^ 63) mod 2 ^ 64 < (2 ^ 64 :: int)"
    by simp_all
  then show ?thesis unfolding int64_def by simp
qed

lemma RecordAccess_hot:
  assumes "fst (IsHotKey d key now)"
  shows "fst (RecordAccess d key now)"
    and "localCache (snd (RecordAccess d key now)) = localCache d"
    and "items (hotKeys (snd (RecordAccess d key now))) = items (hotKeys d)"
  using assms by (simp_all add: RecordAccess_def IsHotKey_def Let_def split_beta)

lemma RecordAccess_not_hot:
  assumes "\<not> fst (IsHotKey d key now)"
  defines "c \<equiv> int64 (fst (GetAccessCount d key now) + 1)"
  shows "fst (RecordAccess d key now) = (Threshold (config d) \<le> c)"
    and "items (localCache (snd (RecordAccess d key now))) =
           (items (localCache d))(key \<mapsto>
              \<lparr>Object = String c, Expiration = expiresAt (localCache d) (Window (config d)) now\<rparr>)"
    and "items (hotKeys (snd (RecordAccess d key now))) =
           (if Threshold (config d) \<le> c
            then (items (hotKeys d))(key \<mapsto>
                   \<lparr>Object = ''true'',
                    Expiration = expiresAt (hotKeys d) (HotKeyExpiration (config d)) now\<rparr>)
            else items (hotKeys d))"
    and "accesses (localCache (snd (RecordAccess d key now))) =
           accesses (localCache d) @ [Lookup key, Store key (String c)]"
proof -
  have one: "int64 1 = 1" by (simp add: int64_def)
  have c: "c = (if snd (fst (cacheGet (localCache d) key now))
                then int64 (parsedCount (fst (fst (cacheGet (localCache d) key now))) + 1) else 1)"
    unfolding c_def by (simp add: GetAccessCount_def split_beta one)
  show "fst (RecordAccess d key now) = (Threshold (config d) \<le> c)"
    using assms(1) unfolding c
    by (simp add: RecordAccess_def IsHotKey_def Let_def split_beta)
  show "items (localCache (snd (RecordAccess d key now))) =
           (items (localCache d))(key \<mapsto>
              \<lparr>Object = String c, Expiration = expiresAt (localCache d) (Window (config d)) now\<rparr>)"
    using assms(1) unfolding c
    by (simp add: RecordAccess_def IsHotKey_def Let_def split_beta cacheSet_items expiresAt_def)
  show "items (hotKeys (snd (RecordAccess d key now))) =
           (if Threshold (config d) \<le> c
            then (items (hotKeys d))(key \<mapsto>
                   \<lparr>Object = ''true'',
                    Expiration = expiresAt (hotKeys d) (HotKeyExpiration (config d)) now\<rparr>)
            else items (hotKeys d))"
    using assms(1) unfolding c
    by (simp add: RecordAccess_def IsHotKey_def Let_def split_beta cacheSet_items expiresAt_def)
  show "accesses (localCache (snd (RecordAccess d key now))) =
           accesses (localCache d) @ [Lookup key, Store key (String c)]"
    using assms(1) unfolding c
    by (simp add: RecordAccess_def IsHotKey_def Let_def split_beta)
qed

lemma RecordAccess_count_after:
  assumes "\<not> fst (IsHotKey d key now)"
  shows "fst (GetAccessCount (snd (RecordAccess d key now)) key now) =
           int64 (fst (GetAccessCount d key now) + 1)"
  using int64_range[of "fst (GetAccessCount d key now) + 1"]
  by (simp add: GetAccessCount_fst[of "snd (RecordAccess d key now)"] RecordAccess_not_hot(2)[OF assms]
      fresh_item_live parsedCount_String)

text \<open>
  C1.  \<open>RecordAccess\<close> follows the detection policy.  If the key has a live hot
  flag, the result is true and neither the access counter (its items and the calls
  it received) nor the registry's items change.  Otherwise, with \<open>c\<close> the count
  that \<open>GetAccessCount\<close> reports before the access (zero for an absent or expired
  record) plus one, as an \<^verbatim>\<open>int64\<close>: the counter afterwards holds \<open>c\<close> for the key,
  in a record that expires a window after \<open>now\<close>; the result is true exactly when
  \<open>c\<close> has reached the threshold; and in that case the key is flagged with an
  expiry of \<open>HotKeyExpiration\<close> after \<open>now\<close>, while otherwise the registry's
  items stay as they were.  (\<open>expiresAt lc dur now\<close> is \<open>now + dur\<close> for a
  positive duration.)
\<close>

theorem RecordAccess_follows_policy:
  "(if fst (IsHotKey d key now)
    then fst (RecordAccess d key now)
         \<and> localCache (snd (RecordAccess d key now)) = localCache d
         \<and> items (hotKeys (snd (RecordAccess d key now))) = items (hotKeys d)
    else fst (GetAccessCount (snd (RecordAccess d key now)) key now) =
           int64 (fst (GetAccessCount d key now) + 1)
         \<and> items (localCache (snd (RecordAccess d key now))) key =
             Some \<lparr>Object = String (int64 (fst (GetAccessCount d key now) + 1)),
                   Expiration = expiresAt (localCache d) (Window (config d)) now\<rparr>
         \<and> fst (RecordAccess d key now) =
             (Threshold (config d) \<le> int64 (fst (GetAccessCount d key now) + 1))
         \<and> items (hotKeys (snd (RecordAccess d key now))) =
             (if Threshold (config d) \<le> int64 (fst (GetAccessCount d key now) + 1)
              then (items (hotKeys d))(key \<mapsto>
                     \<lparr>Object = ''true'',
                      Expiration = expiresAt (hotKeys d) (HotKeyExpiration (config d)) now\<rparr>)
              else items (hotKeys d)))"
proof (cases "fst (IsHotKey d key now)")
  case True
  then show ?thesis using RecordAccess_hot[OF True] by simp
next
  case False
  then show ?thesis
    using RecordAccess_not_hot(1,2,3)[OF False] RecordAccess_count_after[OF False] by simp
qed

theorem RecordAccess_follows_policy_witness:
  "\<not> fst (IsHotKey NewDefaultHotKeyDetector ''k'' 0)
   \<and> \<not> fst (RecordAccess NewDefaultHotKeyDetector ''k'' 0)
   \<and> fst (GetAccessCount (snd (RecordAccess NewDefaultHotKeyDetector ''k'' 0)) ''k'' 0) = 1
   \<and> fst (IsHotKey (snd (RecordAccess (NewHotKeyDetector thresholdOneConfig) ''k'' 0)) ''k'' 5)
   \<and> fst (RecordAccess (snd (RecordAccess (NewHotKeyDetector thresholdOneConfig) ''k'' 0)) ''k'' 5)
   \<and> localCache (snd (RecordAccess (snd (RecordAccess (NewHotKeyDetector thresholdOneConfig) ''k'' 0)) ''k'' 5))
       = localCache (snd (RecordAccess (NewHotKeyDetector thresholdOneConfig) ''k'' 0))"
proof -
  let ?d = "NewDefaultHotKeyDetector"
  let ?h = "snd (RecordAccess (NewHotKeyDetector thresholdOneConfig) ''k'' 0)"
  have cold: "\<not> fst (IsHotKey ?d ''k'' 0)" "fst (GetAccessCount ?d ''k'' 0) = 0"
    "Threshold (config ?d) = 100"
    by (simp_all add: IsHotKey_expired GetAccessCount_fst NewDefaultHotKeyDetector_def
        NewHotKeyDetector_def NewLocalCache_def DefaultHotKeyConfig_def)
  have hot: "fst (IsHotKey ?h ''k'' 5)"
    by (simp add: IsHotKey_expired RecordAccess_def NewHotKeyDetector_def thresholdOneConfig_def
        NewLocalCache_def cacheGet_def cacheSet_def expired_def time_units)
  have one: "int64 1 = 1" by (simp add: int64_def)
  show ?thesis
    using RecordAccess_follows_policy [of ?d "''k''" 0]
      RecordAccess_follows_policy [of ?h "''k''" 5] cold hot one
    by simp
qed


section \<open>The count of a hot key\<close>

lemma RecordAccess_beside_live_flag:
  assumes flag: "items (hotKeys d) key = Some it"
    and live: "k = key \<longrightarrow> \<not> expired it now"
  shows "items (hotKeys (snd (RecordAccess d k now))) key = Some it"
    and "items (localCache (snd (RecordAccess d k now))) key = items (localCache d) key"
    and "callsFor key (localCache (snd (RecordAccess d k now))) = callsFor key (localCache d)"
    and "k = key \<longrightarrow> fst (RecordAccess d k now)"
proof -
  show "items (hotKeys (snd (RecordAccess d k now))) key = Some it"
    using RecordAccess_keeps_live_flag[OF flag, of k now] live by (simp add: expired_def)
  have hot: "k = key \<Longrightarrow> fst (IsHotKey d k now)"
    using flag live by (simp add: IsHotKey_expired)
  show "k = key \<longrightarrow> fst (RecordAccess d k now)"
    using hot RecordAccess_hot(1) by blast
  show "items (localCache (snd (RecordAccess d k now))) key = items (localCache d) key"
  proof (cases "fst (IsHotKey d k now)")
    case True
    then show ?thesis by (simp add: RecordAccess_hot(2))
  next
    case False
    then have "k \<noteq> key" using hot by blast
    then show ?thesis by (simp add: RecordAccess_not_hot(2)[OF False])
  qed
  show "callsFor key (localCache (snd (RecordAccess d k now))) = callsFor key (localCache d)"
  proof (cases "fst (IsHotKey d k now)")
    case True
    then show ?thesis by (simp add: RecordAccess_hot(2))
  next
    case False
    then have "k \<noteq> key" using hot by blast
    then show ?thesis by (simp add: callsFor_def RecordAccess_not_hot(4)[OF False])
  qed
qed

lemma recordAll_beside_live_flag:
  assumes "items (hotKeys d) key = Some it"
    and "\<forall>(k, t) \<in> set ops. k = key \<longrightarrow> \<not> expired it t"
  shows "items (localCache (recordAll d ops)) key = items (localCache d) key
         \<and> callsFor key (localCache (recordAll d ops)) = callsFor key (localCache d)
         \<and> list_all2 (\<lambda>(k, t) r. k = key \<longrightarrow> r) ops (recordEach d ops)"
  using assms
proof (induction ops arbitrary: d)
  case Nil
  show ?case by simp
next
  case (Cons a ops)
  obtain k t where a: "a = (k, t)" by (cases a)
  have live: "k = key \<longrightarrow> \<not> expired it t" using Cons.prems(2) a by simp
  note st = RecordAccess_beside_live_flag[OF Cons.prems(1) live]
  have rest: "\<forall>(k, t) \<in> set ops. k = key \<longrightarrow> \<not> expired it t" using Cons.prems(2) by simp
  from Cons.IH[OF st(1) rest] st(2,3,4) a show ?case by auto
qed

text \<open>
  C10.  Let an access at time \<open>t0\<close> make a key cross the threshold, with a positive
  window and a positive hot-key expiration.  Whatever accesses follow (to any key;
  to this key only while its flag lives), every one of them to this key returns
  true, the access counter receives no call for the key, and the count that
  \<open>GetAccessCount\<close> reports for it at a later time \<open>t\<close> is the count recorded at
  the crossing while the counter's window lasts (\<open>t \<le> t0 + Window\<close>) and zero
  afterwards.
\<close>

theorem count_frozen_while_hot:
  assumes cross: "\<not> fst (IsHotKey d key t0)" "fst (RecordAccess d key t0)"
    and pos: "0 < Window (config d)" "0 < HotKeyExpiration (config d)" "0 \<le> t0"
    and ops: "\<forall>(k, t) \<in> set ops. k = key \<longrightarrow> t \<le> t0 + HotKeyExpiration (config d)"
    and t: "t0 \<le> t"
  shows "list_all2 (\<lambda>(k, t) r. k = key \<longrightarrow> r) ops (recordEach (snd (RecordAccess d key t0)) ops)
    \<and> callsFor key (localCache (recordAll (snd (RecordAccess d key t0)) ops))
        = callsFor key (localCache (snd (RecordAccess d key t0)))
    \<and> fst (GetAccessCount (recordAll (snd (RecordAccess d key t0)) ops) key t)
        = (if t \<le> t0 + Window (config d) then int64 (fst (GetAccessCount d key t0) + 1) else 0)"
proof -
  let ?d = "snd (RecordAccess d key t0)"
  let ?c = "int64 (fst (GetAccessCount d key t0) + 1)"
  let ?flag = "\<lparr>Object = ''true'', Expiration = t0 + HotKeyExpiration (config d)\<rparr>"
  let ?rec = "\<lparr>Object = String ?c, Expiration = t0 + Window (config d)\<rparr>"
  have thr: "Threshold (config d) \<le> ?c"
    using RecordAccess_not_hot(1)[OF cross(1)] cross(2) by simp
  have flag: "items (hotKeys ?d) key = Some ?flag"
    using RecordAccess_not_hot(3)[OF cross(1)] thr pos(2) by (simp add: expiresAt_pos)
  have rec: "items (localCache ?d) key = Some ?rec"
    using RecordAccess_not_hot(2)[OF cross(1)] pos(1) by (simp add: expiresAt_pos)
  have live: "\<forall>(k, t) \<in> set ops. k = key \<longrightarrow> \<not> expired ?flag t"
    using ops by (auto simp add: expired_def)
  note r = recordAll_beside_live_flag[OF flag live]
  have "fst (GetAccessCount (recordAll ?d ops) key t) = (if t \<le> t0 + Window (config d) then ?c else 0)"
    using r rec pos t int64_range[of "fst (GetAccessCount d key t0) + 1"]
    by (simp add: GetAccessCount_fst expired_def parsedCount_String)
  then show ?thesis using r by simp
qed


theorem count_frozen_while_hot_witness:
  "\<not> fst (IsHotKey (NewHotKeyDetector thresholdOneConfig) ''k'' 0)
   \<and> fst (RecordAccess (NewHotKeyDetector thresholdOneConfig) ''k'' 0)
   \<and> callsFor ''k'' (localCache (recordAll (snd (RecordAccess (NewHotKeyDetector thresholdOneConfig) ''k'' 0))
                                      [(''k'', 5), (''j'', 7)]))
       = callsFor ''k'' (localCache (snd (RecordAccess (NewHotKeyDetector thresholdOneConfig) ''k'' 0)))
   \<and> fst (GetAccessCount (recordAll (snd (RecordAccess (NewHotKeyDetector thresholdOneConfig) ''k'' 0))
                                [(''k'', 5), (''j'', 7)]) ''k'' 6) = 1
   \<and> fst (GetAccessCount (recordAll (snd (RecordAccess (NewHotKeyDetector thresholdOneConfig) ''k'' 0))
                                [(''k'', 5), (''j'', 7)]) ''k'' 10000000001) = 0"
proof -
  let ?d = "NewHotKeyDetector thresholdOneConfig"
  have a: "\<not> fst (IsHotKey ?d ''k'' 0)"
    by (simp add: IsHotKey_expired NewHotKeyDetector_def NewLocalCache_def)
  have b: "fst (RecordAccess ?d ''k'' 0)"
    by (simp add: RecordAccess_def NewHotKeyDetector_def thresholdOneConfig_def
        NewLocalCache_def cacheGet_def)
  have c: "0 < Window (config ?d)" "0 < HotKeyExpiration (config ?d)"
    "Window (config ?d) = 10000000000" "HotKeyExpiration (config ?d) = 300000000000"
    by (simp_all add: NewHotKeyDetector_def thresholdOneConfig_def time_units)
  have e: "\<forall>(k, t) \<in> set [(''k'', 5), (''j'', 7)].
             k = ''k'' \<longrightarrow> t \<le> 0 + HotKeyExpiration (config ?d)"
    by (simp add: c(4))
  have g: "fst (GetAccessCount ?d ''k'' 0) = 0"
    by (simp add: GetAccessCount_fst NewHotKeyDetector_def NewLocalCache_def)
  have one: "int64 1 = 1" by (simp add: int64_def)
  show ?thesis
    using count_frozen_while_hot [OF a b c(1,2) _ e, of 6]
      count_frozen_while_hot [OF a b c(1,2) _ e, of 10000000001] a b
    by (simp add: c(3) g one)
qed


section \<open>Counting up to the threshold\<close>

lemma handleKeyStats_fields:
  "statsField (fst (handleKeyStats s key now)) ''access_count'' =
     Some (JInt (fst (GetAccessCount (hotKeyDet s) key now)))"
  "statsField (fst (handleKeyStats s key now)) ''is_hot_key'' =
     Some (JBool (fst (IsHotKey (hotKeyDet s) key now)))"
  by (simp_all add: statsField_def handleKeyStats_def split_beta GetAccessCount_def IsHotKey_def)

lemma handleKeyStats_detector [simp]:
  "items (localCache (hotKeyDet (snd (handleKeyStats s key now)))) = items (localCache (hotKeyDet s))"
  "config (hotKeyDet (snd (handleKeyStats s key now))) = config (hotKeyDet s)"
  "defaultExpiration (localCache (hotKeyDet (snd (handleKeyStats s key now)))) = defaultExpiration (localCache (hotKeyDet s))"
  "defaultExpiration (hotKeys (hotKeyDet (snd (handleKeyStats s key now)))) = defaultExpiration (hotKeys (hotKeyDet s))"
  by (simp_all add: handleKeyStats_def split_beta GetAccessCount_def IsHotKey_def)

lemma reads_detector:
  "hotKeyDet (foldl serve s (readsOf key ts)) = recordAll (hotKeyDet s) (map (Pair key) ts)"
  by (induction ts arbitrary: s) (simp_all add: readsOf_def)

lemma recordAll_config [simp]: "config (recordAll d ops) = config d"
  by (induction ops arbitrary: d) auto


lemma spaced_snoc:
  "spaced w (ts @ [t]) \<Longrightarrow> ts \<noteq> [] \<Longrightarrow>
     spaced w ts \<and> 0 \<le> last ts \<and> last ts \<le> t \<and> t \<le> last ts + w"
proof (induction w ts rule: spaced.induct)
  case (1 w)
  then show ?case by simp
next
  case (2 w a)
  then show ?case by simp
next
  case (3 w a b ts)
  then show ?case by simp
qed

lemma count_run:
  assumes "items (hotKeys d) key = None"
    and "ts \<noteq> []"
    and "fst (GetAccessCount d key (hd ts)) = c"
    and "0 \<le> c" "c + int (length ts) < Threshold (config d)" "Threshold (config d) < 2 ^ 63"
    and "0 < Window (config d)"
    and "spaced (Window (config d)) ts"
  shows "items (hotKeys (recordAll d (map (Pair key) ts))) key = None
       \<and> items (localCache (recordAll d (map (Pair key) ts))) key =
           Some \<lparr>Object = String (c + int (length ts)),
                 Expiration = last ts + Window (config d)\<rparr>"
  using assms
proof (induction ts arbitrary: d c)
  case Nil
  then show ?case by simp
next
  case (Cons a ts)
  let ?d = "snd (RecordAccess d key a)"
  have nh: "\<not> fst (IsHotKey d key a)" using Cons.prems(1) by (simp add: IsHotKey_expired)
  have g: "fst (GetAccessCount d key a) = c" using Cons.prems(3) by simp
  have c1: "int64 (c + 1) = c + 1"
    using Cons.prems(4,5,6) by (intro int64_id) simp_all
  have lt: "\<not> Threshold (config d) \<le> c + 1" using Cons.prems(5) by simp
  have h: "items (hotKeys ?d) key = None"
    using RecordAccess_not_hot(3)[OF nh] g c1 lt Cons.prems(1) by simp
  have r: "items (localCache ?d) key = Some \<lparr>Object = String (c + 1), Expiration = a + Window (config d)\<rparr>"
    using RecordAccess_not_hot(2)[OF nh] g c1 Cons.prems(7) by (simp add: expiresAt_pos)
  show ?case
  proof (cases ts)
    case Nil
    then show ?thesis using h r by simp
  next
    case (Cons b ts')
    have sp: "0 \<le> a" "a \<le> b" "b \<le> a + Window (config d)" "spaced (Window (config d)) ts"
      using Cons.prems(8) Cons by simp_all
    have live: "\<not> expired \<lparr>Object = String (c + 1), Expiration = a + Window (config d)\<rparr> b"
      using sp by (simp add: expired_def)
    have g': "fst (GetAccessCount ?d key (hd ts)) = c + 1"
      using r live Cons Cons.prems(4,5,6)
      by (simp add: GetAccessCount_fst parsedCount_String)
    have "items (hotKeys (recordAll ?d (map (Pair key) ts))) key = None
       \<and> items (localCache (recordAll ?d (map (Pair key) ts))) key =
           Some \<lparr>Object = String (c + 1 + int (length ts)),
                 Expiration = last ts + Window (config ?d)\<rparr>"
      by (rule Cons.IH[OF h _ g']) (use Cons Cons.prems sp in simp_all)
    then show ?thesis using Cons by (simp add: add.assoc)
  qed
qed


lemma count_after_reads:
  assumes fresh: "items (localCache d) key = None" "items (hotKeys d) key = None"
    and thr: "1 \<le> Threshold (config d)" "Threshold (config d) < 2 ^ 63"
    and pos: "0 < Window (config d)"
    and len: "length ts = nat (Threshold (config d) - 1)"
    and sp: "spaced (Window (config d)) (ts @ [t])"
  shows "items (hotKeys (recordAll d (map (Pair key) ts))) key = None"
    and "fst (GetAccessCount (recordAll d (map (Pair key) ts)) key t) = Threshold (config d) - 1"
proof -
  let ?d = "recordAll d (map (Pair key) ts)"
  have both: "items (hotKeys ?d) key = None
              \<and> fst (GetAccessCount ?d key t) = Threshold (config d) - 1"
  proof (cases "ts = []")
    case True
    then have "Threshold (config d) = 1" using len thr(1) by simp
    then show ?thesis using True fresh by (simp add: GetAccessCount_fst)
  next
    case False
    have s: "spaced (Window (config d)) ts" "0 \<le> last ts" "last ts \<le> t"
      "t \<le> last ts + Window (config d)"
      using spaced_snoc[OF sp False] by simp_all
    have g0: "fst (GetAccessCount d key (hd ts)) = 0"
      using fresh(1) by (simp add: GetAccessCount_fst)
    have l: "int (length ts) = Threshold (config d) - 1" using len thr(1) by simp
    have run: "items (hotKeys ?d) key = None
       \<and> items (localCache ?d) key =
           Some \<lparr>Object = String (0 + int (length ts)),
                 Expiration = last ts + Window (config d)\<rparr>"
      by (rule count_run[OF fresh(2) False g0 _ _ thr(2) pos s(1)]) (use l in simp_all)
    have "fst (GetAccessCount ?d key t) = Threshold (config d) - 1"
      using run s l thr pos by (simp add: GetAccessCount_fst expired_def parsedCount_String)
    then show ?thesis using run by simp
  qed
  from both show "items (hotKeys ?d) key = None" by simp
  from both show "fst (GetAccessCount ?d key t) = Threshold (config d) - 1" by simp
qed

text \<open>
  C9.  Take a key without a counter record and without a flag, a threshold of at
  least one, and \<open>threshold - 1\<close> reads of the key, in order and each within a
  window of the one before.  A stats request within a window of the last read
  reports an access count of \<open>threshold - 1\<close> and \<open>is_hot_key\<close> false.
  After one more read (again within a window of the last one), a stats request made
  within the hot-key expiration reports \<open>is_hot_key\<close> true.
\<close>

theorem stats_around_threshold:
  assumes fresh: "items (localCache (hotKeyDet s)) key = None" "items (hotKeys (hotKeyDet s)) key = None"
    and thr: "1 \<le> Threshold (config (hotKeyDet s))" "Threshold (config (hotKeyDet s)) < 2 ^ 63"
    and pos: "0 < Window (config (hotKeyDet s))" "0 < HotKeyExpiration (config (hotKeyDet s))"
    and len: "length ts = nat (Threshold (config (hotKeyDet s)) - 1)"
    and t1: "spaced (Window (config (hotKeyDet s))) (ts @ [t1])"
    and t2: "spaced (Window (config (hotKeyDet s))) (ts @ [t2])"
    and t3: "t2 \<le> t3" "t3 \<le> t2 + HotKeyExpiration (config (hotKeyDet s))"
  shows "statsField (fst (handleKeyStats (foldl serve s (readsOf key ts)) key t1)) ''access_count''
           = Some (JInt (Threshold (config (hotKeyDet s)) - 1))
       \<and> statsField (fst (handleKeyStats (foldl serve s (readsOf key ts)) key t1)) ''is_hot_key''
           = Some (JBool False)
       \<and> statsField (fst (handleKeyStats
             (serve (serve (foldl serve s (readsOf key ts)) (Stats key t1)) (Read key t2)) key t3))
             ''is_hot_key'' = Some (JBool True)"
proof -
  let ?d = "hotKeyDet s"
  let ?T = "Threshold (config ?d)"
  let ?S = "foldl serve s (readsOf key ts)"
  let ?S1 = "serve ?S (Stats key t1)"
  have det: "hotKeyDet ?S = recordAll ?d (map (Pair key) ts)" by (rule reads_detector)
  have nh: "items (hotKeys (hotKeyDet ?S)) key = None"
    unfolding det by (rule count_after_reads(1)[OF fresh thr pos(1) len t1])
  have c1: "fst (GetAccessCount (hotKeyDet ?S) key t1) = ?T - 1"
    unfolding det by (rule count_after_reads(2)[OF fresh thr pos(1) len t1])
  have c2: "fst (GetAccessCount (hotKeyDet ?S) key t2) = ?T - 1"
    unfolding det by (rule count_after_reads(2)[OF fresh thr pos(1) len t2])
  have cold1: "\<not> fst (IsHotKey (hotKeyDet ?S) key t1)"
    using nh by (simp add: IsHotKey_expired)
  have nh1: "\<not> fst (IsHotKey (hotKeyDet ?S1) key t2)"
    using nh by (simp add: IsHotKey_expired)
  have c2': "fst (GetAccessCount (hotKeyDet ?S1) key t2) = ?T - 1"
    using c2 by (simp add: GetAccessCount_fst)
  have cfg: "config (hotKeyDet ?S1) = config ?d" by (simp add: det)
  have t2pos: "0 \<le> t2"
  proof (cases "ts = []")
    case True
    then show ?thesis using t2 by simp
  next
    case False
    then show ?thesis using spaced_snoc[OF t2 False] by simp
  qed
  have i64: "int64 (?T - 1 + 1) = ?T" using thr by (simp add: int64_id)
  have flag: "items (hotKeys (hotKeyDet (serve ?S1 (Read key t2)))) key =
      Some \<lparr>Object = ''true'', Expiration = t2 + HotKeyExpiration (config ?d)\<rparr>"
    using RecordAccess_not_hot(3)[OF nh1] c2' cfg i64 pos(2) by (simp add: expiresAt_pos)
  have hot3: "fst (IsHotKey (hotKeyDet (serve ?S1 (Read key t2))) key t3)"
    using flag t3 t2pos pos(2) by (simp add: IsHotKey_expired expired_def)
  show ?thesis
    using c1 cold1 hot3 by (simp add: handleKeyStats_fields)
qed

theorem stats_around_threshold_witness:
  "statsField (fst (handleKeyStats (foldl serve (NewServer emptyRedis) (readsOf ''k'' (replicate 99 0)))
                      ''k'' 1)) ''access_count'' = Some (JInt 99)
   \<and> statsField (fst (handleKeyStats (foldl serve (NewServer emptyRedis) (readsOf ''k'' (replicate 99 0)))
                      ''k'' 1)) ''is_hot_key'' = Some (JBool False)
   \<and> statsField (fst (handleKeyStats
         (serve (serve (foldl serve (NewServer emptyRedis) (readsOf ''k'' (replicate 99 0)))
                       (Stats ''k'' 1)) (Read ''k'' 2)) ''k'' 3)) ''is_hot_key'' = Some (JBool True)"
proof -
  let ?s = "NewServer emptyRedis"
  have cfg: "Threshold (config (hotKeyDet ?s)) = 100"
    "Window (config (hotKeyDet ?s)) = 10000000000"
    "HotKeyExpiration (config (hotKeyDet ?s)) = 300000000000"
    by (simp_all add: NewServer_def NewDefaultHotKeyDetector_def NewHotKeyDetector_def
        DefaultHotKeyConfig_def time_units)
  have fresh: "items (localCache (hotKeyDet ?s)) ''k'' = None"
    "items (hotKeys (hotKeyDet ?s)) ''k'' = None"
    by (simp_all add: NewServer_def NewDefaultHotKeyDetector_def NewHotKeyDetector_def
        NewLocalCache_def)
  have sp: "spaced 10000000000 (replicate n 0 @ [t])" if "0 \<le> t" "t \<le> 10000000000" for n t
  proof (induction n)
    case 0
    show ?case using that by simp
  next
    case (Suc n)
    then show ?case using that by (cases n) simp_all
  qed
  have len: "length (replicate 99 (0::int)) = nat (Threshold (config (hotKeyDet ?s)) - 1)"
    by (simp add: cfg)
  show ?thesis
    using stats_around_threshold [OF fresh _ _ _ _ len, of 1 2 3] sp [of 1 99] sp [of 2 99]
    by (simp add: cfg)
qed


section \<open>Requests and their keys\<close>




section \<open>Repeated reads of a key\<close>

















end
